theory Spec2Isabelle
  imports
    Complex_Main
    "HOL-Library.AList"
    "HOL-Library.Multiset"
    "HOL-Library.Product_Lexorder"
    "HOL-Library.Log_Nat"
begin

section \<open>Python values used by the OMR processor\<close>

subsection \<open>Exceptions\<close>

text \<open>
  Every \<^verbatim>\<open>raise\<close> reachable from \<^verbatim>\<open>OMRProcessor.process_omr_sheet\<close> is a value of
  this type. \<open>ImageLoadError\<close> is the \<^verbatim>\<open>ValueError("Could not load image from ...")\<close>
  of \<^verbatim>\<open>process_omr_sheet\<close>; the other constructors are raised by Python built-ins
  (\<^verbatim>\<open>w / float(h)\<close> with \<^verbatim>\<open>h = 0\<close>, \<^verbatim>\<open>max([])\<close>, \<^verbatim>\<open>list.index\<close> of an absent
  value, \<^verbatim>\<open>chr\<close> beyond the last code point).
\<close>

datatype error =
    ImageLoadError string
  | ZeroDivisionError
  | MaxEmptyError
  | IndexValueError
  | ChrRangeError

subsection \<open>Double-precision floats\<close>

text \<open>
  A finite Python float is a rational number. \<open>fl\<close> rounds a rational to the nearest
  IEEE-754 binary64 value, ties to even, with gradual underflow: \<open>rne\<close> rounds to the
  nearest integer, ties to even, \<open>ilog2 x\<close> is \<open>\<lfloor>log\<^sub>2 x\<rfloor>\<close> for positive \<open>x\<close>, and
  the significand has 53 bits down to the least exponent \<open>-1074\<close>. Overflow is not
  modelled: every float formed by the processor is a quotient of pixel counts, of
  bounding-box sides or of question counts, or a percentage, and stays far below
  \<open>2^1024\<close>.
\<close>

type_synonym double = rat

definition rne :: "rat \<Rightarrow> int" where
  "rne x = (let f = \<lfloor>x\<rfloor>; d = x - of_int f in
     if d < 1/2 then f else if 1/2 < d then f + 1 else if even f then f else f + 1)"

definition ilog2 :: "rat \<Rightarrow> int" where
  "ilog2 x = (case quotient_of x of (p, q) \<Rightarrow>
     let d = bitlen p - bitlen q in if 2 powi d \<le> x then d else d - 1)"

definition float_exponent :: "rat \<Rightarrow> int" where
  "float_exponent x = max (ilog2 \<bar>x\<bar> - 52) (- 1074)"

definition fl :: "rat \<Rightarrow> double" where
  "fl x = (if x = 0 then 0 else
     let e = float_exponent x
     in sgn x * of_int (rne (\<bar>x\<bar> / 2 powi e)) * 2 powi e)"

text \<open>\<^verbatim>\<open>float(n)\<close>, \<^verbatim>\<open>a / b\<close> on two ints, \<^verbatim>\<open>a / b\<close> and \<^verbatim>\<open>a * b\<close> on two floats.
  The callers test the divisor before dividing.\<close>

definition py_float :: "int \<Rightarrow> double" where
  "py_float n = fl (of_int n)"

definition int_truediv :: "int \<Rightarrow> int \<Rightarrow> double" where
  "int_truediv a b = fl (of_int a / of_int b)"

definition float_div :: "double \<Rightarrow> double \<Rightarrow> double" where
  "float_div a b = fl (a / b)"

definition float_mul :: "double \<Rightarrow> double \<Rightarrow> double" where
  "float_mul a b = fl (a * b)"

text \<open>A number is an int or a float. \<^verbatim>\<open>round(v, 2)\<close> returns an int unchanged; on
  a float, CPython rounds the exact value to two decimals, ties to even, and converts
  the decimal back to the nearest float. The result is stored in a float field.\<close>

datatype number = IntNum int | FloatNum double

definition py_round2 :: "number \<Rightarrow> double" where
  "py_round2 v = (case v of
      IntNum n \<Rightarrow> of_int n
    | FloatNum x \<Rightarrow> fl (of_int (rne (x * 100)) / 100))"

subsection \<open>Dictionaries\<close>

text \<open>
  A Python \<^verbatim>\<open>dict\<close> keeps insertion order and has one entry per key: it is an
  association list with distinct keys. \<^verbatim>\<open>d[k] = v\<close> is \<^const>\<open>AList.update\<close>
  (overwrite in place, or append), \<^verbatim>\<open>d.get(k, dflt)\<close> is \<open>dict_get\<close>,
  \<^verbatim>\<open>len(d)\<close> is \<^const>\<open>length\<close>.
\<close>

type_synonym ('k, 'v) dict = "('k \<times> 'v) list"

definition wf_dict :: "('k, 'v) dict \<Rightarrow> bool" where
  "wf_dict d = distinct (map fst d)"

definition dict_get :: "('k, 'v) dict \<Rightarrow> 'k \<Rightarrow> 'v \<Rightarrow> 'v" where
  "dict_get d k dflt = (case map_of d k of None \<Rightarrow> dflt | Some v \<Rightarrow> v)"

datatype pyval = PInt int | PFloat double | PStr string

section \<open>models.py\<close>

record OMRResult =
  score :: nat
  total :: nat
  percentage :: double
  marked_answers :: "(string, string) dict"
  correct_answers :: "(string, string) dict"
  result :: "(string, string) dict"
  processing_info :: "(string, pyval) dict option"

section \<open>omr\_utils.py: the evaluator\<close>

text \<open>The attributes set by \<^verbatim>\<open>OMRProcessor.__init__\<close> that the processor reads.\<close>

record config =
  questions_per_row :: nat
  bubble_threshold :: double
  min_contour_area :: int
  max_contour_area :: int

definition default_config :: config where
  "default_config = \<lparr> questions_per_row = 5, bubble_threshold = fl (65 / 100),
     min_contour_area = 20, max_contour_area = 400 \<rparr>"

text \<open>The scoring loop of \<^verbatim>\<open>_evaluate_answers\<close> (lines 237--246): the state is
  \<open>(correct_count, result_details)\<close>.\<close>

fun score_loop ::
  "(string, string) dict \<Rightarrow> (string \<times> string) list \<Rightarrow> nat \<times> (string, string) dict
    \<Rightarrow> nat \<times> (string, string) dict" where
  "score_loop ma [] st = st"
| "score_loop ma ((question_num, correct_answer) # items) (correct_count, result_details) =
    (let marked_answer = dict_get ma question_num '''' in
     if marked_answer = '''' then
       score_loop ma items (correct_count, AList.update question_num ''not_attempted'' result_details)
     else if marked_answer = correct_answer then
       score_loop ma items (correct_count + 1, AList.update question_num ''correct'' result_details)
     else
       score_loop ma items (correct_count, AList.update question_num ''incorrect'' result_details))"

text \<open>The completion loop (lines 251--253).\<close>

fun complete_loop ::
  "(string, string) dict \<Rightarrow> string list \<Rightarrow> (string, string) dict \<Rightarrow> (string, string) dict" where
  "complete_loop ma [] cm = cm"
| "complete_loop ma (question_num # ks) cm =
     complete_loop ma ks (AList.update question_num (dict_get ma question_num '''') cm)"

definition evaluate_answers ::
  "config \<Rightarrow> (string, string) dict \<Rightarrow> (string, string) dict \<Rightarrow> OMRResult" where
  "evaluate_answers cfg ma answer_key =
    (let total_questions = length answer_key;
         (correct_count, result_details) = score_loop ma answer_key (0, []);
         pct = (if total_questions > 0
                then FloatNum (float_mul (int_truediv (int correct_count) (int total_questions))
                                 (py_float 100))
                else IntNum 0);
         complete_marked_answers = complete_loop ma (map fst answer_key) [];
         info = [(''total_bubbles_detected'', PInt (int (length ma))),
                 (''detection_threshold'', PFloat (bubble_threshold cfg)),
                 (''image_processing'', PStr ''adaptive_threshold'')]
     in \<lparr> score = correct_count, total = total_questions,
          percentage = py_round2 pct,
          marked_answers = complete_marked_answers,
          correct_answers = answer_key,
          result = result_details,
          processing_info = Some info \<rparr>)"

text \<open>The status the scoring loop gives one question, as a function of the marked
  answer and the key's letter (the \<^verbatim>\<open>if/elif/else\<close> of lines 240--246).\<close>

definition status_of :: "string \<Rightarrow> string \<Rightarrow> string" where
  "status_of marked_answer correct_answer =
     (if marked_answer = '''' then ''not_attempted''
      else if marked_answer = correct_answer then ''correct'' else ''incorrect'')"

section \<open>omr\_utils.py: the image pipeline\<close>

subsection \<open>Built-ins: \<^verbatim>\<open>str\<close>, \<^verbatim>\<open>chr\<close>, \<^verbatim>\<open>max\<close>, \<^verbatim>\<open>list.index\<close>, slices\<close>

text \<open>\<^verbatim>\<open>str(n)\<close> for a non-negative int: its decimal digits.\<close>

fun py_str :: "nat \<Rightarrow> string" where
  "py_str n = (if n < 10 then [char_of (48 + n)]
               else py_str (n div 10) @ [char_of (48 + n mod 10)])"

declare py_str.simps [simp del]

text \<open>\<^verbatim>\<open>chr(n)\<close>: the one-character string of code point \<open>n\<close>, here as its UTF-8
  bytes; \<^verbatim>\<open>ValueError\<close> from \<open>0x110000\<close> on.\<close>

definition utf8 :: "nat \<Rightarrow> string" where
  "utf8 n =
    (if n < 128 then [char_of n]
     else if n < 2048 then [char_of (192 + n div 64), char_of (128 + n mod 64)]
     else if n < 65536 then
       [char_of (224 + n div 4096), char_of (128 + n div 64 mod 64), char_of (128 + n mod 64)]
     else
       [char_of (240 + n div 262144), char_of (128 + n div 4096 mod 64),
        char_of (128 + n div 64 mod 64), char_of (128 + n mod 64)])"

definition py_chr :: "nat \<Rightarrow> error + string" where
  "py_chr n = (if n < 1114112 then Inr (utf8 n) else Inl ChrRangeError)"

definition py_max :: "'a::linorder list \<Rightarrow> error + 'a" where
  "py_max xs = (case xs of [] \<Rightarrow> Inl MaxEmptyError | v # vs \<Rightarrow> Inr (fold max vs v))"

text \<open>\<^verbatim>\<open>xs.index(v)\<close>: the first position holding \<open>v\<close>; \<open>None\<close> is Python's
  \<^verbatim>\<open>ValueError\<close>.\<close>

fun list_index :: "'a list \<Rightarrow> 'a \<Rightarrow> nat option" where
  "list_index [] v = None"
| "list_index (u # us) v = (if u = v then Some 0 else map_option Suc (list_index us v))"

text \<open>\<^verbatim>\<open>xs[i:j]\<close>: a negative bound counts from the end, and both are clamped to the
  list.\<close>

definition py_slice :: "int \<Rightarrow> int \<Rightarrow> 'a list \<Rightarrow> 'a list" where
  "py_slice i j xs =
    (let n = int (length xs);
         lo = (if i < 0 then max (i + n) 0 else min i n);
         hi = (if j < 0 then max (j + n) 0 else min j n)
     in take (nat (hi - lo)) (drop (nat lo) xs))"

subsection \<open>OpenCV\<close>

text \<open>
  The binary image returned by \<^verbatim>\<open>cv2.adaptiveThreshold\<close> is a grid of bytes, a list
  of pixel rows. A contour is used only through \<^verbatim>\<open>cv2.contourArea\<close> (a float) and
  \<^verbatim>\<open>cv2.boundingRect\<close> (\<open>(x, y, w, h)\<close>, ints), so it is the record of the two.
  The calls that read or transform images are parameters of the pipeline.
\<close>

type_synonym binary_image = "nat list list"

record contour =
  contourArea :: double
  boundingRect :: "int \<times> int \<times> int \<times> int"

record 'img cv2 =
  imread :: "string \<Rightarrow> 'img option"
  cvtColor :: "'img \<Rightarrow> 'img"
  GaussianBlur :: "'img \<Rightarrow> 'img"
  adaptiveThreshold :: "'img \<Rightarrow> binary_image"
  findContours :: "binary_image \<Rightarrow> contour list"

text \<open>The dictionary built for each accepted contour (lines 120--128).\<close>

record bubble =
  b_contour :: contour
  b_x :: int
  b_y :: int
  b_w :: int
  b_h :: int
  b_area :: double
  b_center :: "int \<times> int"

subsection \<open>\<^verbatim>\<open>_preprocess_image\<close>\<close>

definition preprocess_image :: "'img cv2 \<Rightarrow> 'img \<Rightarrow> binary_image" where
  "preprocess_image cv img =
    (let gray = cvtColor cv img;
         blurred = GaussianBlur cv gray;
         thresh = adaptiveThreshold cv blurred
     in thresh)"

subsection \<open>\<^verbatim>\<open>_detect_bubbles\<close>\<close>

text \<open>The loop over the contours (lines 108--128); \<^verbatim>\<open>w / float(h)\<close> raises when
  \<open>h = 0\<close>.\<close>

fun detect_loop :: "config \<Rightarrow> contour list \<Rightarrow> bubble list \<Rightarrow> error + bubble list" where
  "detect_loop cfg [] bubbles = Inr bubbles"
| "detect_loop cfg (c # cs) bubbles =
    (let area = contourArea c in
     if of_int (min_contour_area cfg) < area \<and> area < of_int (max_contour_area cfg) then
       (case boundingRect c of (x, y, w, h) \<Rightarrow>
          if h = 0 then Inl ZeroDivisionError
          else
            let aspect_ratio = float_div (py_float w) (py_float h) in
            if fl (7 / 10) \<le> aspect_ratio \<and> aspect_ratio \<le> fl (13 / 10) then
              detect_loop cfg cs
                (bubbles @ [\<lparr> b_contour = c, b_x = x, b_y = y, b_w = w, b_h = h,
                              b_area = area, b_center = (x + w div 2, y + h div 2) \<rparr>])
            else detect_loop cfg cs bubbles)
     else detect_loop cfg cs bubbles)"

text \<open>Line 131: \<^verbatim>\<open>bubbles.sort(key=lambda b: (b['y'], b['x']))\<close>, a stable sort on
  the lexicographic order of the pairs.\<close>

definition sort_bubbles :: "bubble list \<Rightarrow> bubble list" where
  "sort_bubbles bubbles = sort_key (\<lambda>b. (b_y b, b_x b)) bubbles"

definition detect_bubbles :: "'img cv2 \<Rightarrow> config \<Rightarrow> binary_image \<Rightarrow> error + bubble list" where
  "detect_bubbles cv cfg img =
    (case detect_loop cfg (findContours cv img) [] of
       Inl e \<Rightarrow> Inl e
     | Inr bubbles \<Rightarrow> Inr (sort_bubbles bubbles))"

subsection \<open>\<^verbatim>\<open>_group_bubbles_by_rows\<close>\<close>

text \<open>The loop over \<^verbatim>\<open>bubbles[1:]\<close> (lines 202--213); the state is
  \<open>(rows, current_row, current_y)\<close>.\<close>

fun group_loop ::
  "bubble list \<Rightarrow> bubble list list \<Rightarrow> bubble list \<Rightarrow> int \<Rightarrow> bubble list list \<times> bubble list" where
  "group_loop [] rows current_row current_y = (rows, current_row)"
| "group_loop (b # bs) rows current_row current_y =
    (if \<bar>b_y b - current_y\<bar> < 30 then group_loop bs rows (current_row @ [b]) current_y
     else group_loop bs
            (if current_row \<noteq> [] then rows @ [sort_key b_x current_row] else rows)
            [b] (b_y b))"

definition group_bubbles_by_rows :: "bubble list \<Rightarrow> bubble list list" where
  "group_bubbles_by_rows bubbles =
    (case bubbles of
       [] \<Rightarrow> []
     | b0 # rest \<Rightarrow>
        (case group_loop rest [] [b0] (b_y b0) of
           (rows, current_row) \<Rightarrow>
             if current_row \<noteq> [] then rows @ [sort_key b_x current_row] else rows))"

subsection \<open>\<^verbatim>\<open>_analyze_bubbles\<close>\<close>

text \<open>Lines 161--167: the share of pixels equal to 255 in the bubble's bounding box.
  \<^verbatim>\<open>np.sum(...) / region.size\<close> divides two integers as floats.\<close>

definition fill_percentage :: "binary_image \<Rightarrow> bubble \<Rightarrow> double" where
  "fill_percentage img b =
    (let bubble_region =
           map (py_slice (b_x b) (b_x b + b_w b)) (py_slice (b_y b) (b_y b + b_h b) img);
         total_pixels = length (concat bubble_region);
         filled_pixels = length (filter (\<lambda>p. p = 255) (concat bubble_region))
     in if total_pixels > 0
        then float_div (py_float (int filled_pixels)) (py_float (int total_pixels))
        else 0)"

text \<open>The body of the loop over the rows (lines 153--181) for one row: \<open>Inr None\<close>
  when the row leaves \<^verbatim>\<open>marked_answers\<close> untouched, \<open>Inr (Some letter)\<close> when it
  stores \<open>letter\<close>.\<close>

definition analyze_row :: "config \<Rightarrow> binary_image \<Rightarrow> bubble list \<Rightarrow> error + string option" where
  "analyze_row cfg img row_bubbles =
    (if length row_bubbles \<noteq> questions_per_row cfg then Inr None
     else
       let bubble_scores = map (fill_percentage img) row_bubbles in
       case py_max bubble_scores of
         Inl e \<Rightarrow> Inl e
       | Inr max_fill \<Rightarrow>
           if max_fill > bubble_threshold cfg then
             (case list_index bubble_scores max_fill of
                None \<Rightarrow> Inl IndexValueError
              | Some marked_index \<Rightarrow>
                  (case py_chr (65 + marked_index) of
                     Inl e \<Rightarrow> Inl e
                   | Inr marked_letter \<Rightarrow> Inr (Some marked_letter)))
           else Inr None)"

fun analyze_loop ::
  "config \<Rightarrow> binary_image \<Rightarrow> nat \<Rightarrow> bubble list list \<Rightarrow> (string, string) dict
    \<Rightarrow> error + (string, string) dict" where
  "analyze_loop cfg img question_num [] marked = Inr marked"
| "analyze_loop cfg img question_num (row_bubbles # rows) marked =
    (case analyze_row cfg img row_bubbles of
       Inl e \<Rightarrow> Inl e
     | Inr None \<Rightarrow> analyze_loop cfg img (question_num + 1) rows marked
     | Inr (Some marked_letter) \<Rightarrow>
         analyze_loop cfg img (question_num + 1) rows
           (AList.update (py_str question_num) marked_letter marked))"

definition analyze_bubbles ::
  "config \<Rightarrow> binary_image \<Rightarrow> bubble list \<Rightarrow> error + (string, string) dict" where
  "analyze_bubbles cfg img bubbles =
     analyze_loop cfg img 1 (group_bubbles_by_rows bubbles) []"

subsection \<open>\<^verbatim>\<open>process_omr_sheet\<close>\<close>

text \<open>The \<^verbatim>\<open>except\<close> clause logs and re-raises, so the error reaches the caller
  unchanged.\<close>

definition process_omr_sheet ::
  "'img cv2 \<Rightarrow> config \<Rightarrow> string \<Rightarrow> (string, string) dict \<Rightarrow> error + OMRResult" where
  "process_omr_sheet cv cfg image_path answer_key =
    (case imread cv image_path of
       None \<Rightarrow> Inl (ImageLoadError image_path)
     | Some img \<Rightarrow>
         let processed_image = preprocess_image cv img in
         case detect_bubbles cv cfg processed_image of
           Inl e \<Rightarrow> Inl e
         | Inr bubbles \<Rightarrow>
             (case analyze_bubbles cfg processed_image bubbles of
                Inl e \<Rightarrow> Inl e
              | Inr marked \<Rightarrow> Inr (evaluate_answers cfg marked answer_key)))"

section \<open>mock\_omr\_utils.py\<close>

definition mock_marked_answers :: "(string, string) dict" where
  "mock_marked_answers =
     [(''1'', ''A''), (''2'', ''C''), (''3'', ''C''), (''4'', ''D''), (''5'', ''A''),
      (''6'', ''''), (''7'', ''B''), (''8'', ''D''), (''9'', ''''), (''10'', ''A'')]"

text \<open>Lines 50--59 and 65--66 of the mock's \<^verbatim>\<open>process_omr_sheet\<close>.\<close>

fun mock_score_loop ::
  "(string \<times> string) list \<Rightarrow> nat \<times> (string, string) dict \<Rightarrow> nat \<times> (string, string) dict" where
  "mock_score_loop [] st = st"
| "mock_score_loop ((question_num, correct_answer) # items) (correct_count, result_details) =
    (let marked_answer = dict_get mock_marked_answers question_num '''' in
     if marked_answer = '''' then
       mock_score_loop items (correct_count, AList.update question_num ''not_attempted'' result_details)
     else if marked_answer = correct_answer then
       mock_score_loop items (correct_count + 1, AList.update question_num ''correct'' result_details)
     else
       mock_score_loop items (correct_count, AList.update question_num ''incorrect'' result_details))"

fun mock_complete_loop :: "string list \<Rightarrow> (string, string) dict \<Rightarrow> (string, string) dict" where
  "mock_complete_loop [] cm = cm"
| "mock_complete_loop (question_num # ks) cm =
     mock_complete_loop ks
       (AList.update question_num (dict_get mock_marked_answers question_num '''') cm)"

definition mock_process_omr_sheet :: "string \<Rightarrow> (string, string) dict \<Rightarrow> OMRResult" where
  "mock_process_omr_sheet image_path answer_key =
    (let total_questions = length answer_key;
         (correct_count, result_details) = mock_score_loop answer_key (0, []);
         pct = (if total_questions > 0
                then FloatNum (float_mul (int_truediv (int correct_count) (int total_questions))
                                 (py_float 100))
                else IntNum 0);
         complete_marked_answers = mock_complete_loop (map fst answer_key) [];
         info = [(''total_bubbles_detected'',
                    PInt (int (length (filter (\<lambda>a. a \<noteq> '''') (map snd mock_marked_answers))))),
                 (''detection_threshold'', PFloat (fl (65 / 100))),
                 (''image_processing'', PStr ''mock_processing'')]
     in \<lparr> score = correct_count, total = total_questions,
          percentage = py_round2 pct,
          marked_answers = complete_marked_answers,
          correct_answers = answer_key,
          result = result_details,
          processing_info = Some info \<rparr>)"

section \<open>The row sweep in the words of the specification\<close>

text \<open>
  Walk the sequence: the first bubble opens a row and fixes its reference vertical
  coordinate; the bubbles that follow join the row while they differ from the reference
  by less than the tolerance; the first one that does not closes the row, which is
  sorted left to right, and opens the next.
\<close>

function sweep_rows :: "bubble list \<Rightarrow> bubble list list" where
  "sweep_rows [] = []"
| "sweep_rows (b # bs) =
     sort_key b_x (b # takeWhile (\<lambda>c. \<bar>b_y c - b_y b\<bar> < 30) bs)
       # sweep_rows (dropWhile (\<lambda>c. \<bar>b_y c - b_y b\<bar> < 30) bs)"
  by pat_completeness auto
termination
  by (relation "measure length") (auto simp: length_dropWhile_le less_Suc_eq_le)

section \<open>Properties of the evaluator\<close>

lemma score_loop_eq:
  "score_loop ma items (c, d) =
     (c + length (filter (\<lambda>(q, a). status_of (dict_get ma q '''') a = ''correct'') items),
      fold (\<lambda>(q, a). AList.update q (status_of (dict_get ma q '''') a)) items d)"
proof (induction items arbitrary: c d)
  case Nil
  then show ?case by simp
next
  case (Cons it items)
  obtain q a where it: "it = (q, a)" by (cases it)
  show ?case
    unfolding it by (simp add: Cons.IH status_of_def Let_def)
qed

lemma update_fresh: "k \<notin> fst ` set d \<Longrightarrow> AList.update k v d = d @ [(k, v)]"
  by (induction d) auto

lemma fold_update_fresh:
  "distinct (map fst items) \<Longrightarrow> fst ` set items \<inter> fst ` set d = {} \<Longrightarrow>
   fold (\<lambda>(q, a). AList.update q (g q a)) items d = d @ map (\<lambda>(q, a). (q, g q a)) items"
proof (induction items arbitrary: d)
  case Nil
  then show ?case by simp
next
  case (Cons it items)
  obtain q a where it: "it = (q, a)" by (cases it)
  from Cons.prems have fresh: "q \<notin> fst ` set d" and d: "distinct (map fst items)"
    and q: "q \<notin> fst ` set items" and disj: "fst ` set items \<inter> fst ` set d = {}"
    by (auto simp: it)
  have "fst ` set items \<inter> fst ` set (d @ [(q, g q a)]) = {}"
    using q disj by auto
  from Cons.IH [OF d this] show ?case
    by (simp add: it update_fresh [OF fresh])
qed

lemma result_details_eq:
  assumes "wf_dict answer_key"
  shows "result (evaluate_answers cfg ma answer_key) =
           map (\<lambda>(q, a). (q, status_of (dict_get ma q '''') a)) answer_key"
  using fold_update_fresh [of answer_key "[]" "\<lambda>q a. status_of (dict_get ma q '''') a"] assms
  by (simp add: evaluate_answers_def score_loop_eq wf_dict_def Let_def)

lemma score_eq:
  "score (evaluate_answers cfg ma answer_key) =
     length (filter (\<lambda>(q, a). status_of (dict_get ma q '''') a = ''correct'') answer_key)"
  by (simp add: evaluate_answers_def score_loop_eq Let_def)

lemma total_eq: "total (evaluate_answers cfg ma answer_key) = length answer_key"
  by (simp add: evaluate_answers_def Let_def split_def)

lemma complete_loop_eq:
  "distinct ks \<Longrightarrow> set ks \<inter> fst ` set cm = {} \<Longrightarrow>
   complete_loop ma ks cm = cm @ map (\<lambda>q. (q, dict_get ma q '''')) ks"
proof (induction ks arbitrary: cm)
  case Nil
  then show ?case by simp
next
  case (Cons q ks)
  from Cons.prems have fresh: "q \<notin> fst ` set cm" and d: "distinct ks"
    and "set ks \<inter> fst ` set (cm @ [(q, dict_get ma q '''')]) = {}"
    by auto
  from Cons.IH [OF d this(3)] show ?case
    by (simp add: update_fresh [OF fresh])
qed

lemma marked_answers_eq:
  assumes "wf_dict answer_key"
  shows "marked_answers (evaluate_answers cfg ma answer_key) =
           map (\<lambda>(q, a). (q, dict_get ma q '''')) answer_key"
  using complete_loop_eq [of "map fst answer_key" "[]" ma] assms
  by (simp add: evaluate_answers_def wf_dict_def split_def comp_def Let_def)

lemma map_of_mapped:
  "distinct (map fst kvs) \<Longrightarrow> (q, a) \<in> set kvs \<Longrightarrow>
   map_of (map (\<lambda>(q, a). (q, g q a)) kvs) q = Some (g q a)"
  by (induction kvs) (auto simp: rev_image_eqI)

lemma map_fst_mapped: "map fst (map (\<lambda>(q, a). (q, g q a)) kvs) = map fst kvs"
  by (induction kvs) auto

lemma count_correct_mapped:
  "length (filter (\<lambda>(q, s). s = v) (map (\<lambda>(q, a). (q, g q a)) kvs)) =
   length (filter (\<lambda>(q, a). g q a = v) kvs)"
  by (induction kvs) auto

lemma dict_get_empty_iff:
  "dict_get ma q '''' = '''' \<longleftrightarrow> map_of ma q = None \<or> map_of ma q = Some ''''"
  by (simp add: dict_get_def split: option.splits)

lemma dict_get_letter_iff:
  "dict_get ma q '''' \<noteq> '''' \<and> dict_get ma q '''' = c \<longleftrightarrow> map_of ma q = Some c \<and> c \<noteq> ''''"
  by (auto simp: dict_get_def split: option.splits)

lemma dict_get_other_iff:
  "dict_get ma q '''' \<noteq> '''' \<and> dict_get ma q '''' \<noteq> c \<longleftrightarrow>
     (\<exists>l. map_of ma q = Some l \<and> l \<noteq> '''' \<and> l \<noteq> c)"
  by (auto simp: dict_get_def split: option.splits)

lemma status_of_cases:
  "status_of m c = ''not_attempted'' \<longleftrightarrow> m = ''''"
  "status_of m c = ''correct'' \<longleftrightarrow> m \<noteq> '''' \<and> m = c"
  "status_of m c = ''incorrect'' \<longleftrightarrow> m \<noteq> '''' \<and> m \<noteq> c"
  by (simp_all add: status_of_def)

lemma status_of_vocabulary:
  "status_of m c \<in> {''correct'', ''incorrect'', ''not_attempted''}"
  by (simp add: status_of_def)

lemma mock_score_loop_eq: "mock_score_loop items st = score_loop mock_marked_answers items st"
proof (induction items arbitrary: st)
  case Nil
  then show ?case by simp
next
  case (Cons it items)
  obtain q a where it: "it = (q, a)" by (cases it)
  obtain n d where st: "st = (n, d)" by (cases st)
  show ?case unfolding it st by (simp add: Cons.IH Let_def)
qed

lemma mock_complete_loop_eq: "mock_complete_loop ks cm = complete_loop mock_marked_answers ks cm"
  by (induction ks arbitrary: cm) simp_all

text \<open>
  C1. For every answer key (a dictionary, so with one entry per question) and every
  marked answers: the score is the number of questions whose status is \<open>correct\<close>,
  and each question \<open>q\<close> of the key, with letter \<open>c\<close>, gets the status
  \<open>not_attempted\<close> exactly when the marked answers have no entry for \<open>q\<close> or the empty
  string, \<open>correct\<close> exactly when they hold the (non-empty) letter \<open>c\<close>, and
  \<open>incorrect\<close> exactly when they hold another non-empty letter.
\<close>

theorem evaluate_status_and_score:
  assumes "wf_dict answer_key"
  shows "score (evaluate_answers cfg ma answer_key) =
            length (filter (\<lambda>(k, s). s = ''correct'') (result (evaluate_answers cfg ma answer_key)))
       \<and> (\<forall>(q, c) \<in> set answer_key.
            (map_of (result (evaluate_answers cfg ma answer_key)) q = Some ''not_attempted''
               \<longleftrightarrow> map_of ma q = None \<or> map_of ma q = Some '''')
          \<and> (map_of (result (evaluate_answers cfg ma answer_key)) q = Some ''correct''
               \<longleftrightarrow> map_of ma q = Some c \<and> c \<noteq> '''')
          \<and> (map_of (result (evaluate_answers cfg ma answer_key)) q = Some ''incorrect''
               \<longleftrightarrow> (\<exists>l. map_of ma q = Some l \<and> l \<noteq> '''' \<and> l \<noteq> c)))"
proof -
  have d: "distinct (map fst answer_key)"
    using assms by (simp add: wf_dict_def)
  have sc: "score (evaluate_answers cfg ma answer_key) =
      length (filter (\<lambda>(k, s). s = ''correct'') (result (evaluate_answers cfg ma answer_key)))"
    unfolding result_details_eq [OF assms] score_eq count_correct_mapped ..
  have each: "(map_of (result (evaluate_answers cfg ma answer_key)) q = Some ''not_attempted''
               \<longleftrightarrow> map_of ma q = None \<or> map_of ma q = Some '''')
          \<and> (map_of (result (evaluate_answers cfg ma answer_key)) q = Some ''correct''
               \<longleftrightarrow> map_of ma q = Some c \<and> c \<noteq> '''')
          \<and> (map_of (result (evaluate_answers cfg ma answer_key)) q = Some ''incorrect''
               \<longleftrightarrow> (\<exists>l. map_of ma q = Some l \<and> l \<noteq> '''' \<and> l \<noteq> c))"
    if mem: "(q, c) \<in> set answer_key" for q c
  proof -
    have st: "map_of (result (evaluate_answers cfg ma answer_key)) q =
                Some (status_of (dict_get ma q '''') c)"
      unfolding result_details_eq [OF assms] by (rule map_of_mapped [OF d mem])
    have a: "status_of (dict_get ma q '''') c = ''not_attempted''
                \<longleftrightarrow> map_of ma q = None \<or> map_of ma q = Some ''''"
      unfolding status_of_cases by (rule dict_get_empty_iff)
    have b: "status_of (dict_get ma q '''') c = ''correct''
                \<longleftrightarrow> map_of ma q = Some c \<and> c \<noteq> ''''"
      unfolding status_of_cases by (rule dict_get_letter_iff)
    have i: "status_of (dict_get ma q '''') c = ''incorrect''
                \<longleftrightarrow> (\<exists>l. map_of ma q = Some l \<and> l \<noteq> '''' \<and> l \<noteq> c)"
      unfolding status_of_cases by (rule dict_get_other_iff)
    show ?thesis
      unfolding st option.inject using a b i by blast
  qed
  from sc each show ?thesis by blast
qed

theorem evaluate_status_and_score_witness:
  "wf_dict [(''1'', ''A''), (''2'', ''B''), (''3'', ''C'')]
   \<and> score (evaluate_answers default_config
         [(''1'', ''A''), (''2'', ''C''), (''3'', '''')]
         [(''1'', ''A''), (''2'', ''B''), (''3'', ''C'')]) = 1
   \<and> map_of (result (evaluate_answers default_config
         [(''1'', ''A''), (''2'', ''C''), (''3'', '''')]
         [(''1'', ''A''), (''2'', ''B''), (''3'', ''C'')])) ''1'' = Some ''correct''
   \<and> map_of (result (evaluate_answers default_config
         [(''1'', ''A''), (''2'', ''C''), (''3'', '''')]
         [(''1'', ''A''), (''2'', ''B''), (''3'', ''C'')])) ''2'' = Some ''incorrect''
   \<and> map_of (result (evaluate_answers default_config
         [(''1'', ''A''), (''2'', ''C''), (''3'', '''')]
         [(''1'', ''A''), (''2'', ''B''), (''3'', ''C'')])) ''3'' = Some ''not_attempted''
   \<and> wf_dict ([] :: (string, string) dict)
   \<and> score (evaluate_answers default_config [(''1'', ''A'')] []) = 0"
proof -
  let ?ma = "[(''1'', ''A''), (''2'', ''C''), (''3'', '''')]"
  let ?key = "[(''1'', ''A''), (''2'', ''B''), (''3'', ''C'')]"
  have h: "wf_dict ?key"
    by (simp add: wf_dict_def)
  have h0: "wf_dict ([] :: (string, string) dict)"
    by (simp add: wf_dict_def)
  have r: "result (evaluate_answers default_config ?ma ?key) =
       [(''1'', ''correct''), (''2'', ''incorrect''), (''3'', ''not_attempted'')]"
    by (simp add: evaluate_answers_def dict_get_def Let_def)
  have r0: "result (evaluate_answers default_config [(''1'', ''A'')] []) = []"
    by (simp add: evaluate_answers_def Let_def)
  note t = evaluate_status_and_score [OF h, of default_config ?ma]
  note t0 = evaluate_status_and_score [OF h0, of default_config "[(''1'', ''A'')]"]
  from t have "score (evaluate_answers default_config ?ma ?key) =
      length (filter (\<lambda>(k, s). s = ''correct'') (result (evaluate_answers default_config ?ma ?key)))"
    by (rule conjunct1)
  then have s: "score (evaluate_answers default_config ?ma ?key) = 1"
    unfolding r by simp
  from t0 have "score (evaluate_answers default_config [(''1'', ''A'')] []) =
      length (filter (\<lambda>(k, s). s = ''correct'')
        (result (evaluate_answers default_config [(''1'', ''A'')] [])))"
    by (rule conjunct1)
  then have s0: "score (evaluate_answers default_config [(''1'', ''A'')] []) = 0"
    unfolding r0 by simp
  from t have each: "\<forall>(q, c) \<in> set ?key.
            (map_of (result (evaluate_answers default_config ?ma ?key)) q = Some ''not_attempted''
               \<longleftrightarrow> map_of ?ma q = None \<or> map_of ?ma q = Some '''')
          \<and> (map_of (result (evaluate_answers default_config ?ma ?key)) q = Some ''correct''
               \<longleftrightarrow> map_of ?ma q = Some c \<and> c \<noteq> '''')
          \<and> (map_of (result (evaluate_answers default_config ?ma ?key)) q = Some ''incorrect''
               \<longleftrightarrow> (\<exists>l. map_of ?ma q = Some l \<and> l \<noteq> '''' \<and> l \<noteq> c))"
    by (rule conjunct2)
  have m1: "(''1'', ''A'') \<in> set ?key" and m2: "(''2'', ''B'') \<in> set ?key"
    and m3: "(''3'', ''C'') \<in> set ?key" by simp_all
  from each m1 have "map_of (result (evaluate_answers default_config ?ma ?key)) ''1'' = Some ''correct''
      \<longleftrightarrow> map_of ?ma ''1'' = Some ''A'' \<and> ''A'' \<noteq> ''''" by blast
  then have q1: "map_of (result (evaluate_answers default_config ?ma ?key)) ''1'' = Some ''correct''"
    by simp
  from each m2 have "map_of (result (evaluate_answers default_config ?ma ?key)) ''2'' = Some ''incorrect''
      \<longleftrightarrow> (\<exists>l. map_of ?ma ''2'' = Some l \<and> l \<noteq> '''' \<and> l \<noteq> ''B'')" by blast
  then have q2: "map_of (result (evaluate_answers default_config ?ma ?key)) ''2'' = Some ''incorrect''"
    by simp
  from each m3 have "map_of (result (evaluate_answers default_config ?ma ?key)) ''3'' = Some ''not_attempted''
      \<longleftrightarrow> map_of ?ma ''3'' = None \<or> map_of ?ma ''3'' = Some ''''" by blast
  then have q3: "map_of (result (evaluate_answers default_config ?ma ?key)) ''3'' = Some ''not_attempted''"
    by simp
  from h s q1 q2 q3 h0 s0 show ?thesis by (intro conjI)
qed

text \<open>
  C8. For an answer key and any marked answers, the \<open>marked_answers\<close> and \<open>result\<close>
  dictionaries of the evaluation hold exactly the question identifiers of the key, in
  the key's order and each once; \<open>marked_answers\<close> holds the detected letter, and the
  empty string for a question without one; every status is \<open>correct\<close>, \<open>incorrect\<close>
  or \<open>not_attempted\<close>, never \<open>invalid\<close>.
\<close>

theorem evaluate_result_complete:
  assumes "wf_dict answer_key"
  shows "map fst (marked_answers (evaluate_answers cfg ma answer_key)) = map fst answer_key
       \<and> map fst (result (evaluate_answers cfg ma answer_key)) = map fst answer_key
       \<and> wf_dict (marked_answers (evaluate_answers cfg ma answer_key))
       \<and> wf_dict (result (evaluate_answers cfg ma answer_key))
       \<and> (\<forall>q \<in> fst ` set answer_key.
            map_of (marked_answers (evaluate_answers cfg ma answer_key)) q =
              Some (case map_of ma q of None \<Rightarrow> '''' | Some l \<Rightarrow> l))
       \<and> snd ` set (result (evaluate_answers cfg ma answer_key))
            \<subseteq> {''correct'', ''incorrect'', ''not_attempted''}
       \<and> ''invalid'' \<notin> snd ` set (result (evaluate_answers cfg ma answer_key))"
proof -
  have d: "distinct (map fst answer_key)"
    using assms by (simp add: wf_dict_def)
  have k1: "map fst (marked_answers (evaluate_answers cfg ma answer_key)) = map fst answer_key"
    unfolding marked_answers_eq [OF assms] by (rule map_fst_mapped)
  have k2: "map fst (result (evaluate_answers cfg ma answer_key)) = map fst answer_key"
    unfolding result_details_eq [OF assms] by (rule map_fst_mapped)
  have m: "map_of (marked_answers (evaluate_answers cfg ma answer_key)) q =
             Some (case map_of ma q of None \<Rightarrow> '''' | Some l \<Rightarrow> l)"
    if "q \<in> fst ` set answer_key" for q
  proof -
    from that obtain a where "(q, a) \<in> set answer_key" by auto
    from map_of_mapped [OF d this, of "\<lambda>q a. dict_get ma q ''''"]
    show ?thesis unfolding marked_answers_eq [OF assms] by (simp add: dict_get_def)
  qed
  have v: "snd ` set (result (evaluate_answers cfg ma answer_key))
             \<subseteq> {''correct'', ''incorrect'', ''not_attempted''}"
  proof
    fix s assume "s \<in> snd ` set (result (evaluate_answers cfg ma answer_key))"
    then obtain k a where "s = status_of (dict_get ma k '''') a"
      unfolding result_details_eq [OF assms] by auto
    then show "s \<in> {''correct'', ''incorrect'', ''not_attempted''}"
      using status_of_vocabulary by simp
  qed
  have nv: "''invalid'' \<notin> snd ` set (result (evaluate_answers cfg ma answer_key))"
  proof
    assume "''invalid'' \<in> snd ` set (result (evaluate_answers cfg ma answer_key))"
    with v have "''invalid'' \<in> {''correct'', ''incorrect'', ''not_attempted''}" by (rule subsetD)
    then show False by simp
  qed
  show ?thesis
    using k1 k2 m v nv d by (simp add: wf_dict_def)
qed

theorem evaluate_result_complete_witness:
  "wf_dict [(''1'', ''A''), (''2'', ''B''), (''3'', ''C'')]
   \<and> marked_answers (evaluate_answers default_config [(''1'', ''A''), (''7'', ''D'')]
        [(''1'', ''A''), (''2'', ''B''), (''3'', ''C'')]) =
       [(''1'', ''A''), (''2'', ''''), (''3'', '''')]
   \<and> map fst (result (evaluate_answers default_config [(''1'', ''A''), (''7'', ''D'')]
        [(''1'', ''A''), (''2'', ''B''), (''3'', ''C'')])) = [''1'', ''2'', ''3'']
   \<and> ''invalid'' \<notin> snd ` set (result (evaluate_answers default_config
        [(''1'', ''A''), (''7'', ''D'')] [(''1'', ''A''), (''2'', ''B''), (''3'', ''C'')]))"
proof -
  have h: "wf_dict [(''1'', ''A''), (''2'', ''B''), (''3'', ''C'')]"
    by (simp add: wf_dict_def)
  have m: "marked_answers (evaluate_answers default_config [(''1'', ''A''), (''7'', ''D'')]
        [(''1'', ''A''), (''2'', ''B''), (''3'', ''C'')]) =
       [(''1'', ''A''), (''2'', ''''), (''3'', '''')]"
    by (simp add: evaluate_answers_def dict_get_def Let_def split_def)
  from evaluate_result_complete [OF h, of default_config "[(''1'', ''A''), (''7'', ''D'')]"]
  show ?thesis
    using h m by simp
qed

text \<open>
  C9. For every answer key, the mock processor returns the same score, total,
  percentage, marked answers, correct answers and statuses as the evaluator of the real
  processor applied to the mock's fixed marked answers and the same key.
\<close>

theorem mock_agrees_with_evaluate_answers:
  "score (mock_process_omr_sheet image_path answer_key) =
     score (evaluate_answers cfg mock_marked_answers answer_key)
   \<and> total (mock_process_omr_sheet image_path answer_key) =
     total (evaluate_answers cfg mock_marked_answers answer_key)
   \<and> percentage (mock_process_omr_sheet image_path answer_key) =
     percentage (evaluate_answers cfg mock_marked_answers answer_key)
   \<and> marked_answers (mock_process_omr_sheet image_path answer_key) =
     marked_answers (evaluate_answers cfg mock_marked_answers answer_key)
   \<and> correct_answers (mock_process_omr_sheet image_path answer_key) =
     correct_answers (evaluate_answers cfg mock_marked_answers answer_key)
   \<and> result (mock_process_omr_sheet image_path answer_key) =
     result (evaluate_answers cfg mock_marked_answers answer_key)"
  by (simp add: mock_process_omr_sheet_def evaluate_answers_def mock_score_loop_eq
      mock_complete_loop_eq Let_def split_def)

section \<open>Properties of the row grouper\<close>

lemma group_loop_sweep:
  assumes "current_row \<noteq> []"
  shows "(case group_loop bs rows current_row current_y of
           (rows', row') \<Rightarrow> if row' \<noteq> [] then rows' @ [sort_key b_x row'] else rows') =
         rows @ sort_key b_x (current_row @ takeWhile (\<lambda>c. \<bar>b_y c - current_y\<bar> < 30) bs)
              # sweep_rows (dropWhile (\<lambda>c. \<bar>b_y c - current_y\<bar> < 30) bs)"
  using assms
proof (induction bs arbitrary: rows current_row current_y)
  case Nil
  then show ?case by simp
next
  case (Cons b bs)
  show ?case
  proof (cases "\<bar>b_y b - current_y\<bar> < 30")
    case True
    have "current_row @ [b] \<noteq> []" by simp
    from Cons.IH [OF this, of rows current_y] True show ?thesis by simp
  next
    case False
    have "[b] \<noteq> []" by simp
    from Cons.IH [OF this, of "rows @ [sort_key b_x current_row]" "b_y b"] False Cons.prems
    show ?thesis by simp
  qed
qed

lemma group_bubbles_by_rows_sweep: "group_bubbles_by_rows bubbles = sweep_rows bubbles"
proof (cases bubbles)
  case Nil
  then show ?thesis by (simp add: group_bubbles_by_rows_def)
next
  case (Cons b0 rest)
  have "[b0] \<noteq> []" by simp
  from group_loop_sweep [OF this, of rest "[]" "b_y b0"] show ?thesis
    by (simp add: group_bubbles_by_rows_def Cons)
qed

lemma sweep_rows_mset: "mset (concat (sweep_rows bs)) = mset bs"
proof (induction bs rule: sweep_rows.induct)
  case 1
  then show ?case by simp
next
  case (2 b bs)
  have "mset (takeWhile (\<lambda>c. \<bar>b_y c - b_y b\<bar> < 30) bs)
          + mset (dropWhile (\<lambda>c. \<bar>b_y c - b_y b\<bar> < 30) bs) = mset bs"
    by (simp flip: mset_append)
  with 2 show ?case by (simp add: add.assoc)
qed

lemma sweep_rows_nonempty: "[] \<notin> set (sweep_rows bs)"
proof (induction bs rule: sweep_rows.induct)
  case 1
  then show ?case by simp
next
  case (2 b bs)
  have "length (sort_key b_x (b # takeWhile (\<lambda>c. \<bar>b_y c - b_y b\<bar> < 30) bs)) \<noteq> 0"
    unfolding length_sort by simp
  then have "sort_key b_x (b # takeWhile (\<lambda>c. \<bar>b_y c - b_y b\<bar> < 30) bs) \<noteq> []"
    unfolding length_0_conv .
  with 2 show ?case by (auto simp del: sort_key_simps)
qed

lemma sweep_rows_sorted: "r \<in> set (sweep_rows bs) \<Longrightarrow> sorted (map b_x r)"
proof (induction bs rule: sweep_rows.induct)
  case 1
  then show ?case by simp
next
  case (2 b bs)
  from "2.prems" consider
      "r = sort_key b_x (b # takeWhile (\<lambda>c. \<bar>b_y c - b_y b\<bar> < 30) bs)"
    | "r \<in> set (sweep_rows (dropWhile (\<lambda>c. \<bar>b_y c - b_y b\<bar> < 30) bs))"
    by (auto simp del: sort_key_simps)
  then show ?case
  proof cases
    case 1
    show ?thesis unfolding 1 by (rule sorted_sort_key)
  next
    case 2
    then show ?thesis by (rule "2.IH")
  qed
qed




text \<open>
  C10. The rows returned by the grouper hold exactly the bubbles it was given, each as
  often as it was given, and no row is empty.
\<close>

theorem group_bubbles_by_rows_partition:
  "mset (concat (group_bubbles_by_rows bubbles)) = mset bubbles
   \<and> [] \<notin> set (group_bubbles_by_rows bubbles)"
  by (simp add: group_bubbles_by_rows_sweep sweep_rows_mset sweep_rows_nonempty)

section \<open>Properties of the answer extractor\<close>

lemma py_str_nonempty: "py_str n \<noteq> []"
  by (subst py_str.simps) simp

lemma digit_char_inject: "a < 10 \<Longrightarrow> b < 10 \<Longrightarrow> char_of (48 + a) = (char_of (48 + b) :: char) \<Longrightarrow> a = (b::nat)"
proof -
  assume a: "a < 10" and b: "b < 10" and e: "char_of (48 + a) = (char_of (48 + b) :: char)"
  have "of_char (char_of (48 + a) :: char) = (48 + a) mod 256"
    by (rule of_char_of)
  moreover have "of_char (char_of (48 + b) :: char) = (48 + b) mod 256"
    by (rule of_char_of)
  ultimately have "(48 + a) mod 256 = (48 + b) mod 256"
    using e by simp
  with a b show "a = b" by simp
qed

lemma py_str_small: "n < 10 \<Longrightarrow> py_str n = [char_of (48 + n)]"
  by (subst py_str.simps) simp

lemma py_str_big: "\<not> n < 10 \<Longrightarrow> py_str n = py_str (n div 10) @ [char_of (48 + n mod 10)]"
  by (subst py_str.simps) simp

lemma py_str_inject: "py_str m = py_str n \<Longrightarrow> m = n"
proof (induction n arbitrary: m rule: py_str.induct)
  case (1 n)
  show ?case
  proof (cases "n < 10")
    case True
    note n = this
    show ?thesis
    proof (cases "m < 10")
      case True
      from "1.prems" have "char_of (48 + m) = (char_of (48 + n) :: char)"
        unfolding py_str_small [OF n] py_str_small [OF True] by simp
      from digit_char_inject [OF True n this] show ?thesis .
    next
      case False
      from "1.prems" have "length (py_str (m div 10)) = 0"
        unfolding py_str_small [OF n] py_str_big [OF False] by simp
      with py_str_nonempty [of "m div 10"] show ?thesis by simp
    qed
  next
    case False
    note n = this
    show ?thesis
    proof (cases "m < 10")
      case True
      from "1.prems" have "length (py_str (n div 10)) = 0"
        unfolding py_str_small [OF True] py_str_big [OF n] by simp
      with py_str_nonempty [of "n div 10"] show ?thesis by simp
    next
      case False
      from "1.prems" have e: "py_str (m div 10) = py_str (n div 10)"
        and d: "char_of (48 + m mod 10) = (char_of (48 + n mod 10) :: char)"
        unfolding py_str_big [OF False] py_str_big [OF n] by simp_all
      from "1.IH" [OF n e] have q: "m div 10 = n div 10" .
      have "m mod 10 < 10" "n mod 10 < 10" by simp_all
      from digit_char_inject [OF this d] have r: "m mod 10 = n mod 10" .
      have "m = 10 * (m div 10) + m mod 10" by simp
      also have "\<dots> = 10 * (n div 10) + n mod 10" unfolding q r ..
      also have "\<dots> = n" by simp
      finally show ?thesis .
    qed
  qed
qed

lemma py_max_Max: "xs \<noteq> [] \<Longrightarrow> py_max xs = Inr (Max (set xs))"
proof (cases xs)
  case Nil
  assume "xs \<noteq> []"
  with Nil show ?thesis by simp
next
  case (Cons v vs)
  show ?thesis unfolding Cons py_max_def by (simp only: list.case Max.set_eq_fold)
qed

lemma list_index_first:
  "v \<in> set xs \<Longrightarrow>
   \<exists>i. list_index xs v = Some i \<and> i < length xs \<and> xs ! i = v \<and> (\<forall>j<i. xs ! j \<noteq> v)"
proof (induction xs)
  case Nil
  then show ?case by simp
next
  case (Cons u us)
  show ?case
  proof (cases "u = v")
    case True
    then show ?thesis by simp
  next
    case False
    with Cons.prems have "v \<in> set us" by simp
    from Cons.IH [OF this] obtain i where i: "list_index us v = Some i" "i < length us"
      "us ! i = v" "\<forall>j<i. us ! j \<noteq> v" by blast
    have "\<forall>j<Suc i. (u # us) ! j \<noteq> v"
      using False i(4) by (auto simp: less_Suc_eq_0_disj)
    with False i show ?thesis by auto
  qed
qed

text \<open>A row of the configured length: the letter stored is that of the first bubble
  whose fill ratio equals the maximum of the row, when the maximum exceeds the
  threshold.\<close>

lemma analyze_row_valid:
  assumes len: "length row = questions_per_row cfg" and ne: "row \<noteq> []"
    and chr: "questions_per_row cfg + 65 \<le> 1114112"
  shows "\<exists>k<length row.
           fill_percentage img (row ! k) = Max (fill_percentage img ` set row)
         \<and> (\<forall>j<k. fill_percentage img (row ! j) < Max (fill_percentage img ` set row))
         \<and> analyze_row cfg img row =
             Inr (if bubble_threshold cfg < Max (fill_percentage img ` set row)
                  then Some (utf8 (65 + k)) else None)"
proof -
  let ?scores = "map (fill_percentage img) row"
  let ?m = "Max (fill_percentage img ` set row)"
  have sne: "?scores \<noteq> []" using ne by simp
  have mx: "py_max ?scores = Inr ?m"
    using py_max_Max [OF sne] by simp
  have "?m \<in> set ?scores"
    using Max_in [of "set ?scores"] sne by simp
  from list_index_first [OF this] obtain k where k: "list_index ?scores ?m = Some k"
    "k < length ?scores" "?scores ! k = ?m" "\<forall>j<k. ?scores ! j \<noteq> ?m" by blast
  have kl: "k < length row" using k(2) by simp
  have le: "fill_percentage img (row ! j) \<le> ?m" if "j < length row" for j
    using that by (intro Max_ge) auto
  have lt: "\<forall>j<k. fill_percentage img (row ! j) < ?m"
  proof (intro allI impI)
    fix j assume j: "j < k"
    with kl have jl: "j < length row" by simp
    from k(4) j have "?scores ! j \<noteq> ?m" by blast
    then have "fill_percentage img (row ! j) \<noteq> ?m"
      unfolding nth_map [OF jl] .
    with le [OF jl] show "fill_percentage img (row ! j) < ?m" by simp
  qed
  have c: "py_chr (65 + k) = Inr (utf8 (65 + k))"
    using kl len chr by (simp add: py_chr_def)
  have "analyze_row cfg img row =
          Inr (if bubble_threshold cfg < ?m then Some (utf8 (65 + k)) else None)"
    using len mx k(1) c by (simp add: analyze_row_def Let_def)
  moreover have "fill_percentage img (row ! k) = ?m"
    using k(3) unfolding nth_map [OF kl] .
  ultimately show ?thesis using kl lt by blast
qed

lemma analyze_row_degenerate:
  "length row \<noteq> questions_per_row cfg \<Longrightarrow> analyze_row cfg img row = Inr None"
  by (simp add: analyze_row_def)

lemma analyze_row_total:
  assumes "row \<noteq> []" and "questions_per_row cfg + 65 \<le> 1114112"
  shows "\<exists>v. analyze_row cfg img row = Inr v"
proof (cases "length row = questions_per_row cfg")
  case True
  from analyze_row_valid [OF True assms] show ?thesis by blast
next
  case False
  then show ?thesis by (simp add: analyze_row_degenerate)
qed

text \<open>The loop over the rows: question \<open>n + i\<close> gets what row \<open>i\<close> stores, and no
  other key changes.\<close>

lemma analyze_loop_lookup:
  assumes "\<forall>r\<in>set rows. \<exists>v. analyze_row cfg img r = Inr v"
  shows "\<exists>ma. analyze_loop cfg img n rows marked = Inr ma
        \<and> (\<forall>i<length rows. map_of ma (py_str (n + i)) =
              (case analyze_row cfg img (rows ! i) of
                 Inr (Some l) \<Rightarrow> Some l | _ \<Rightarrow> map_of marked (py_str (n + i))))
        \<and> (\<forall>s. (\<forall>i<length rows. s \<noteq> py_str (n + i)) \<longrightarrow> map_of ma s = map_of marked s)"
  using assms
proof (induction rows arbitrary: n marked)
  case Nil
  then show ?case by simp
next
  case (Cons r rows)
  from Cons.prems obtain v where v: "analyze_row cfg img r = Inr v" by auto
  define marked' where
    "marked' = (case v of None \<Rightarrow> marked | Some l \<Rightarrow> AList.update (py_str n) l marked)"
  have step: "analyze_loop cfg img n (r # rows) marked = analyze_loop cfg img (Suc n) rows marked'"
    using v by (cases v) (simp_all add: marked'_def)
  from Cons.prems have "\<forall>r\<in>set rows. \<exists>v. analyze_row cfg img r = Inr v" by simp
  from Cons.IH [OF this, of "Suc n" marked'] obtain ma where
    ma: "analyze_loop cfg img (Suc n) rows marked' = Inr ma"
    and hit: "\<forall>i<length rows. map_of ma (py_str (Suc n + i)) =
              (case analyze_row cfg img (rows ! i) of
                 Inr (Some l) \<Rightarrow> Some l | _ \<Rightarrow> map_of marked' (py_str (Suc n + i)))"
    and miss: "\<forall>s. (\<forall>i<length rows. s \<noteq> py_str (Suc n + i)) \<longrightarrow> map_of ma s = map_of marked' s"
    by blast
  have other: "map_of marked' s = map_of marked s" if "s \<noteq> py_str n" for s
    using that by (cases v) (simp_all add: marked'_def update_conv')
  have here: "map_of marked' (py_str n) =
      (case analyze_row cfg img r of Inr (Some l) \<Rightarrow> Some l | _ \<Rightarrow> map_of marked (py_str n))"
    using v by (cases v) (simp_all add: marked'_def update_conv')
  have ne: "py_str n \<noteq> py_str (Suc n + i)" for i
    using py_str_inject [of n "Suc n + i"] by auto
  have h0: "map_of ma (py_str n) =
      (case analyze_row cfg img r of Inr (Some l) \<Rightarrow> Some l | _ \<Rightarrow> map_of marked (py_str n))"
    using miss ne here by simp
  have hS: "map_of ma (py_str (n + Suc i)) =
      (case analyze_row cfg img (rows ! i) of
         Inr (Some l) \<Rightarrow> Some l | _ \<Rightarrow> map_of marked (py_str (n + Suc i)))"
    if "i < length rows" for i
  proof -
    have "map_of marked' (py_str (Suc n + i)) = map_of marked (py_str (Suc n + i))"
      using other [of "py_str (Suc n + i)"] ne [of i] by simp
    with hit that show ?thesis by (simp split: sum.splits option.splits)
  qed
  have hit': "\<forall>i<length (r # rows). map_of ma (py_str (n + i)) =
              (case analyze_row cfg img ((r # rows) ! i) of
                 Inr (Some l) \<Rightarrow> Some l | _ \<Rightarrow> map_of marked (py_str (n + i)))"
  proof (intro allI impI)
    fix i assume il: "i < length (r # rows)"
    show "map_of ma (py_str (n + i)) =
              (case analyze_row cfg img ((r # rows) ! i) of
                 Inr (Some l) \<Rightarrow> Some l | _ \<Rightarrow> map_of marked (py_str (n + i)))"
    proof (cases i)
      case 0
      show ?thesis unfolding 0 using h0 by (simp split: sum.splits option.splits)
    next
      case (Suc i')
      with il have "i' < length rows" by simp
      from hS [OF this] show ?thesis unfolding Suc by (simp split: sum.splits option.splits)
    qed
  qed
  have miss': "\<forall>s. (\<forall>i<length (r # rows). s \<noteq> py_str (n + i)) \<longrightarrow> map_of ma s = map_of marked s"
  proof (intro allI impI)
    fix s assume s: "\<forall>i<length (r # rows). s \<noteq> py_str (n + i)"
    then have s0: "s \<noteq> py_str n" by force
    have "\<forall>i<length rows. s \<noteq> py_str (Suc n + i)"
    proof (intro allI impI)
      fix i assume "i < length rows"
      then have "Suc i < length (r # rows)" by simp
      with s have "s \<noteq> py_str (n + Suc i)" by blast
      then show "s \<noteq> py_str (Suc n + i)" by simp
    qed
    with miss have "map_of ma s = map_of marked' s" by blast
    with other [OF s0] show "map_of ma s = map_of marked s" by simp
  qed
  from step ma have "analyze_loop cfg img n (r # rows) marked = Inr ma" by simp
  with hit' miss' show ?case by (intro exI [of _ ma] conjI)
qed

lemma analyze_bubbles_lookup:
  assumes chr: "questions_per_row cfg + 65 \<le> 1114112"
  shows "\<exists>ma. analyze_bubbles cfg img bubbles = Inr ma
        \<and> (\<forall>i<length (group_bubbles_by_rows bubbles). map_of ma (py_str (i + 1)) =
              (case analyze_row cfg img (group_bubbles_by_rows bubbles ! i) of
                 Inr (Some l) \<Rightarrow> Some l | _ \<Rightarrow> None))"
proof -
  have "\<forall>r\<in>set (group_bubbles_by_rows bubbles). \<exists>v. analyze_row cfg img r = Inr v"
  proof
    fix r assume "r \<in> set (group_bubbles_by_rows bubbles)"
    with sweep_rows_nonempty [of bubbles] have "r \<noteq> []"
      unfolding group_bubbles_by_rows_sweep by metis
    from analyze_row_total [OF this chr] show "\<exists>v. analyze_row cfg img r = Inr v" .
  qed
  from analyze_loop_lookup [OF this, of 1 "[]"] show ?thesis
    unfolding analyze_bubbles_def by (auto simp: add.commute split: sum.splits option.splits)
qed

section \<open>Properties of the float model\<close>

lemma rne_of_int: "rne (of_int n) = n"
  by (simp add: rne_def)

lemma rne_floor_cases: "rne x = \<lfloor>x\<rfloor> \<or> rne x = \<lfloor>x\<rfloor> + 1"
  by (simp add: rne_def Let_def)

lemma rne_mono: "x \<le> y \<Longrightarrow> rne x \<le> rne y"
proof -
  assume xy: "x \<le> y"
  then have fl: "\<lfloor>x\<rfloor> \<le> \<lfloor>y\<rfloor>" by (rule floor_mono)
  show ?thesis
  proof (cases "\<lfloor>x\<rfloor> = \<lfloor>y\<rfloor>")
    case True
    with xy have "x - of_int \<lfloor>x\<rfloor> \<le> y - of_int \<lfloor>y\<rfloor>" by simp
    with True show ?thesis by (auto simp: rne_def Let_def)
  next
    case False
    with fl have "\<lfloor>x\<rfloor> + 1 \<le> \<lfloor>y\<rfloor>" by simp
    moreover have "rne x \<le> \<lfloor>x\<rfloor> + 1" using rne_floor_cases [of x] by auto
    moreover have "\<lfloor>y\<rfloor> \<le> rne y" using rne_floor_cases [of y] by auto
    ultimately show ?thesis by linarith
  qed
qed

lemma rne_ge: "of_int n \<le> x \<Longrightarrow> n \<le> rne x"
  using rne_mono [of "of_int n" x] by (simp add: rne_of_int)

lemma rne_le: "x \<le> of_int n \<Longrightarrow> rne x \<le> n"
  using rne_mono [of x "of_int n"] by (simp add: rne_of_int)

lemma bitlen_bounds_rat:
  assumes "0 < p"
  shows "(2::rat) powi (bitlen p - 1) \<le> of_int p \<and> of_int p < (2::rat) powi bitlen p"
proof -
  have bp: "1 \<le> bitlen p"
    using assms bitlen_eq_zero_iff [of p] bitlen_nonneg [of p] by linarith
  from bitlen_bounds [OF assms] have a: "2 ^ nat (bitlen p - 1) \<le> p" and b: "p < 2 ^ nat (bitlen p)"
    by simp_all
  have "(of_int (2 ^ nat (bitlen p - 1)) :: rat) \<le> of_int p"
    using a by (simp only: of_int_le_iff)
  then have a': "(2::rat) ^ nat (bitlen p - 1) \<le> of_int p" by simp
  have "(of_int p :: rat) < of_int (2 ^ nat (bitlen p))"
    using b by (simp only: of_int_less_iff)
  then have b': "of_int p < (2::rat) ^ nat (bitlen p)" by simp
  have e1: "(2::rat) powi (bitlen p - 1) = 2 ^ nat (bitlen p - 1)"
    using bp by (simp add: power_int_def)
  have e2: "(2::rat) powi bitlen p = 2 ^ nat (bitlen p)"
    using bp by (simp add: power_int_def)
  show ?thesis unfolding e1 e2 using a' b' by simp
qed

text \<open>\<open>ilog2\<close> is the binary logarithm rounded down.\<close>

lemma ilog2_bounds:
  assumes "0 < x"
  shows "2 powi ilog2 x \<le> x \<and> x < 2 powi (ilog2 x + 1)"
proof -
  obtain p q where pq: "quotient_of x = (p, q)" by (cases "quotient_of x")
  then have q: "0 < q" by (rule quotient_of_denom_pos)
  from pq have x: "x = of_int p / of_int q" by (rule quotient_of_div)
  with assms q have p: "0 < p" by (simp add: zero_less_divide_iff)
  define d where "d = bitlen p - bitlen q"
  note p1 = bitlen_bounds_rat [OF p, THEN conjunct1] and p2 = bitlen_bounds_rat [OF p, THEN conjunct2]
  note q1 = bitlen_bounds_rat [OF q, THEN conjunct1] and q2 = bitlen_bounds_rat [OF q, THEN conjunct2]
  have qpos: "(0::rat) < of_int q" using q by simp
  have lo: "2 powi (d - 1) < x"
  proof -
    have "(2::rat) powi (d - 1) * of_int q < 2 powi (d - 1) * 2 powi bitlen q"
      using q2 by (intro mult_strict_left_mono) simp_all
    also have "\<dots> = 2 powi (bitlen p - 1)"
      by (simp add: d_def flip: power_int_add)
    also have "\<dots> \<le> of_int p" by (rule p1)
    finally show ?thesis using qpos by (simp add: x pos_less_divide_eq)
  qed
  have hi: "x < 2 powi (d + 1)"
  proof -
    have "of_int p < (2::rat) powi bitlen p" by (rule p2)
    also have "\<dots> = 2 powi (d + 1) * 2 powi (bitlen q - 1)"
      by (simp add: d_def flip: power_int_add)
    also have "\<dots> \<le> 2 powi (d + 1) * of_int q"
      using q1 by (intro mult_left_mono) simp_all
    finally show ?thesis using qpos by (simp add: x pos_divide_less_eq)
  qed
  have il: "ilog2 x = (if 2 powi d \<le> x then d else d - 1)"
    by (simp add: ilog2_def pq d_def Let_def)
  show ?thesis
  proof (cases "2 powi d \<le> x")
    case True
    with il hi show ?thesis by simp
  next
    case False
    with il lo show ?thesis by simp
  qed
qed

lemma ilog2_mono:
  assumes "0 < x" "x \<le> y"
  shows "ilog2 x \<le> ilog2 y"
proof (rule ccontr)
  assume "\<not> ilog2 x \<le> ilog2 y"
  then have "ilog2 y + 1 \<le> ilog2 x" by simp
  then have "(2::rat) powi (ilog2 y + 1) \<le> 2 powi ilog2 x"
    by (intro power_int_increasing) simp_all
  also have "\<dots> \<le> x" using ilog2_bounds [OF assms(1)] by simp
  also have "\<dots> \<le> y" by (rule assms(2))
  finally show False using ilog2_bounds [of y] assms by simp
qed

lemma fl_pos:
  "0 < x \<Longrightarrow> fl x = of_int (rne (x / 2 powi float_exponent x)) * 2 powi float_exponent x"
  by (simp add: fl_def Let_def)

lemma float_exponent_pos: "0 < x \<Longrightarrow> float_exponent x = max (ilog2 x - 52) (- 1074)"
  by (simp add: float_exponent_def)

lemma fl_nonneg: "0 \<le> x \<Longrightarrow> 0 \<le> fl x"
proof (cases "x = 0")
  case True
  then show ?thesis by (simp add: fl_def)
next
  case False
  assume "0 \<le> x"
  with False have pos: "0 < x" by simp
  have "(of_int 0 :: rat) \<le> x / 2 powi float_exponent x"
    using pos by simp
  then have "0 \<le> rne (x / 2 powi float_exponent x)" by (rule rne_ge)
  then show ?thesis unfolding fl_pos [OF pos] by simp
qed

text \<open>Rounding never reorders two non-negative numbers.\<close>

lemma fl_mono:
  assumes "0 \<le> x" "x \<le> y"
  shows "fl x \<le> fl y"
proof (cases "x = 0")
  case True
  with assms fl_nonneg [of y] show ?thesis by (simp add: fl_def)
next
  case False
  with assms have x: "0 < x" and y: "0 < y" by simp_all
  let ?ex = "float_exponent x" and ?ey = "float_exponent y"
  have exy: "?ex \<le> ?ey"
    using ilog2_mono [OF x assms(2)] unfolding float_exponent_pos [OF x] float_exponent_pos [OF y]
    by simp
  show ?thesis
  proof (cases "?ex = ?ey")
    case True
    have "x / 2 powi ?ey \<le> y / 2 powi ?ey"
      using assms(2) by (simp add: divide_right_mono)
    then have "rne (x / 2 powi ?ey) \<le> rne (y / 2 powi ?ey)" by (rule rne_mono)
    then have "(of_int (rne (x / 2 powi ?ey)) :: rat) \<le> of_int (rne (y / 2 powi ?ey))"
      by simp
    then show ?thesis
      unfolding fl_pos [OF x] fl_pos [OF y] True by (intro mult_right_mono) simp_all
  next
    case False
    with exy have lt: "?ex < ?ey" by simp
    have ex_ge: "ilog2 x - 52 \<le> ?ex" unfolding float_exponent_pos [OF x] by simp
    have "- 1074 \<le> ?ex" unfolding float_exponent_pos [OF x] by simp
    with lt have ey: "?ey = ilog2 y - 52" unfolding float_exponent_pos [OF y] by simp
    have "x < 2 powi (ilog2 x + 1)" using ilog2_bounds [OF x] by simp
    also have "\<dots> \<le> 2 powi (?ex + 53)"
      using ex_ge by (intro power_int_increasing) simp_all
    also have "\<dots> = 2 powi 53 * 2 powi ?ex"
      by (simp add: power_int_add)
    finally have "x / 2 powi ?ex \<le> of_int (2 ^ 53)"
      by (simp add: pos_divide_le_eq)
    then have "rne (x / 2 powi ?ex) \<le> 2 ^ 53" by (rule rne_le)
    then have "(of_int (rne (x / 2 powi ?ex)) :: rat) \<le> of_int (2 ^ 53)"
      by (simp only: of_int_le_iff)
    then have "fl x \<le> of_int (2 ^ 53) * 2 powi ?ex"
      unfolding fl_pos [OF x] by (intro mult_right_mono) simp_all
    also have "\<dots> = 2 powi (?ex + 53)"
      by (simp add: power_int_add)
    also have "\<dots> \<le> 2 powi (?ey + 52)"
      using lt by (intro power_int_increasing) simp_all
    finally have a: "fl x \<le> 2 powi (?ey + 52)" .
    have "(2::rat) powi (?ey + 52) = 2 powi ilog2 y" by (simp add: ey)
    also have "\<dots> \<le> y" using ilog2_bounds [OF y] by simp
    finally have "2 powi 52 * 2 powi ?ey \<le> y" by (simp add: power_int_add mult.commute)
    then have "of_int (2 ^ 52) \<le> y / 2 powi ?ey"
      by (simp add: pos_le_divide_eq)
    then have "2 ^ 52 \<le> rne (y / 2 powi ?ey)" by (rule rne_ge)
    then have "(of_int (2 ^ 52) :: rat) \<le> of_int (rne (y / 2 powi ?ey))"
      by (simp only: of_int_le_iff)
    then have "of_int (2 ^ 52) * 2 powi ?ey \<le> fl y"
      unfolding fl_pos [OF y] by (intro mult_right_mono) simp_all
    then have b: "2 powi (?ey + 52) \<le> fl y"
      by (simp add: power_int_add mult.commute)
    from a b show ?thesis by simp
  qed
qed

lemma fl_1: "fl 1 = 1"
  by code_simp

lemma fl_100: "fl 100 = 100"
  by code_simp

lemma fl_le_1: "0 \<le> x \<Longrightarrow> x \<le> 1 \<Longrightarrow> fl x \<le> 1"
  using fl_mono [of x 1] by (simp add: fl_1)

lemma fl_le_100: "0 \<le> x \<Longrightarrow> x \<le> 100 \<Longrightarrow> fl x \<le> 100"
  using fl_mono [of x 100] by (simp add: fl_100)

section \<open>The percentage\<close>

lemma percentage_bounds:
  assumes "s \<le> t" and "0 < t"
  shows "0 \<le> py_round2 (FloatNum (float_mul (int_truediv (int s) (int t)) (py_float 100)))
       \<and> py_round2 (FloatNum (float_mul (int_truediv (int s) (int t)) (py_float 100))) \<le> 100"
proof -
  define q where "q = int_truediv (int s) (int t)"
  define m where "m = float_mul q (py_float 100)"
  have frac: "0 \<le> (of_int (int s) :: rat) / of_int (int t)" "(of_int (int s) :: rat) / of_int (int t) \<le> 1"
    using assms by simp_all
  have q0: "0 \<le> q" unfolding q_def int_truediv_def using frac(1) by (rule fl_nonneg)
  have q1: "q \<le> 1" unfolding q_def int_truediv_def using frac by (rule fl_le_1)
  have m_eq: "m = fl (q * 100)"
    by (simp add: m_def float_mul_def py_float_def fl_100)
  have q100: "0 \<le> q * 100" "q * 100 \<le> 100" using q0 q1 by simp_all
  have m0: "0 \<le> m" unfolding m_eq using q100(1) by (rule fl_nonneg)
  have m1: "m \<le> 100" unfolding m_eq using q100 by (rule fl_le_100)
  have "of_int 0 \<le> m * 100" using m0 by simp
  then have r0: "0 \<le> rne (m * 100)" by (rule rne_ge)
  have "m * 100 \<le> of_int 10000" using m1 by simp
  then have r1: "rne (m * 100) \<le> 10000" by (rule rne_le)
  have d0: "0 \<le> (of_int (rne (m * 100)) :: rat) / 100" using r0 by simp
  have "(of_int (rne (m * 100)) :: rat) \<le> of_int 10000" using r1 by (simp only: of_int_le_iff)
  then have d1: "(of_int (rne (m * 100)) :: rat) / 100 \<le> 100" by simp
  have "0 \<le> fl (of_int (rne (m * 100)) / 100)" using d0 by (rule fl_nonneg)
  moreover have "fl (of_int (rne (m * 100)) / 100) \<le> 100" using d0 d1 by (rule fl_le_100)
  ultimately show ?thesis
    by (simp add: py_round2_def m_def q_def)
qed

lemma percentage_eq:
  "percentage (evaluate_answers cfg ma answer_key) =
     py_round2 (if 0 < total (evaluate_answers cfg ma answer_key)
                then FloatNum (float_mul
                       (int_truediv (int (score (evaluate_answers cfg ma answer_key)))
                                    (int (total (evaluate_answers cfg ma answer_key))))
                       (py_float 100))
                else IntNum 0)"
  by (simp add: evaluate_answers_def Let_def split_def)

lemma score_le_total:
  "score (evaluate_answers cfg ma answer_key) \<le> total (evaluate_answers cfg ma answer_key)"
  unfolding score_eq total_eq by (rule length_filter_le)

text \<open>
  C2. For every key and marked answers the total is the number of questions of the key,
  the score is at most the total and the percentage lies between 0 and 100; when the
  key has at least one question the percentage is \<^verbatim>\<open>round(score / total * 100, 2)\<close>
  computed on floats from the returned score and total; when the key is empty the
  total is 0 and the percentage is exactly 0.
\<close>

theorem evaluate_percentage:
  "total (evaluate_answers cfg ma answer_key) = length answer_key
   \<and> score (evaluate_answers cfg ma answer_key) \<le> total (evaluate_answers cfg ma answer_key)
   \<and> 0 \<le> percentage (evaluate_answers cfg ma answer_key)
   \<and> percentage (evaluate_answers cfg ma answer_key) \<le> 100
   \<and> (0 < total (evaluate_answers cfg ma answer_key) \<longrightarrow>
        percentage (evaluate_answers cfg ma answer_key) =
          py_round2 (FloatNum (float_mul
            (int_truediv (int (score (evaluate_answers cfg ma answer_key)))
                         (int (total (evaluate_answers cfg ma answer_key))))
            (py_float 100))))
   \<and> (answer_key = [] \<longrightarrow>
        total (evaluate_answers cfg ma answer_key) = 0
      \<and> percentage (evaluate_answers cfg ma answer_key) = 0)"
proof -
  let ?r = "evaluate_answers cfg ma answer_key"
  have zero: "percentage ?r = 0" if "total ?r = 0"
    using that by (simp add: percentage_eq [of cfg ma answer_key] py_round2_def)
  have bounds: "0 \<le> percentage ?r \<and> percentage ?r \<le> 100"
  proof (cases "0 < total ?r")
    case True
    from percentage_bounds [OF score_le_total True] True show ?thesis
      by (simp add: percentage_eq [of cfg ma answer_key])
  next
    case False
    then have "total ?r = 0" by simp
    from zero [OF this] show ?thesis by simp
  qed
  have formula: "percentage ?r =
          py_round2 (FloatNum (float_mul (int_truediv (int (score ?r)) (int (total ?r)))
            (py_float 100)))" if "0 < total ?r"
    using that by (simp add: percentage_eq [of cfg ma answer_key])
  have empty: "total ?r = 0 \<and> percentage ?r = 0" if "answer_key = []"
  proof -
    from that have "total ?r = 0" by (simp add: total_eq)
    with zero show ?thesis by simp
  qed
  from total_eq [of cfg ma answer_key] score_le_total [of cfg ma answer_key] bounds formula empty
  show ?thesis by blast
qed

theorem evaluate_percentage_witness:
  "0 < total (evaluate_answers default_config
         [(''1'', ''A''), (''2'', ''C''), (''3'', '''')]
         [(''1'', ''A''), (''2'', ''B''), (''3'', ''C'')])
   \<and> score (evaluate_answers default_config
         [(''1'', ''A''), (''2'', ''C''), (''3'', '''')]
         [(''1'', ''A''), (''2'', ''B''), (''3'', ''C'')]) = 1
   \<and> percentage (evaluate_answers default_config
         [(''1'', ''A''), (''2'', ''C''), (''3'', '''')]
         [(''1'', ''A''), (''2'', ''B''), (''3'', ''C'')]) = fl (3333 / 100)
   \<and> percentage (evaluate_answers default_config
         [(''1'', ''A''), (''2'', ''C''), (''3'', '''')]
         [(''1'', ''A''), (''2'', ''B''), (''3'', ''C'')]) \<le> 100
   \<and> percentage (evaluate_answers default_config [(''1'', ''A'')] []) = 0"
proof -
  let ?r = "evaluate_answers default_config
         [(''1'', ''A''), (''2'', ''C''), (''3'', '''')]
         [(''1'', ''A''), (''2'', ''B''), (''3'', ''C'')]"
  have t: "total ?r = 3"
    by (simp add: total_eq)
  have s: "score ?r = 1"
    by (simp add: evaluate_answers_def dict_get_def Let_def)
  have v: "py_round2 (FloatNum (float_mul (int_truediv 1 3) (py_float 100))) = fl (3333 / 100)"
    by code_simp
  note c = evaluate_percentage [of default_config
      "[(''1'', ''A''), (''2'', ''C''), (''3'', '''')]"
      "[(''1'', ''A''), (''2'', ''B''), (''3'', ''C'')]"]
  note c0 = evaluate_percentage [of default_config "[(''1'', ''A'')]" "[]"]
  have p: "0 < total ?r" unfolding t by simp
  from c p have "percentage ?r =
      py_round2 (FloatNum (float_mul (int_truediv (int (score ?r)) (int (total ?r))) (py_float 100)))"
    by blast
  then have e: "percentage ?r = fl (3333 / 100)"
    unfolding t s using v by simp
  from c have u: "percentage ?r \<le> 100" by blast
  from c0 have z: "percentage (evaluate_answers default_config [(''1'', ''A'')] []) = 0"
    by blast
  from p s e u z show ?thesis by (intro conjI)
qed

section \<open>Properties of the bubble detector\<close>

text \<open>Integers below \<open>2^53\<close> are floats, so \<^verbatim>\<open>float(h)\<close> is exact on OpenCV's ints.\<close>

lemma fl_int_exact:
  assumes "0 < n" and "n < 2 ^ 53"
  shows "fl (of_int n) = of_int n"
proof -
  let ?x = "of_int n :: rat"
  have x: "0 < ?x" using assms(1) by simp
  note b = ilog2_bounds [OF x]
  have k0: "0 \<le> ilog2 ?x"
  proof (rule ccontr)
    assume "\<not> 0 \<le> ilog2 ?x"
    then have "(2::rat) powi (ilog2 ?x + 1) \<le> 2 powi 0"
      by (intro power_int_increasing) simp_all
    moreover have "1 \<le> ?x" using assms(1) by simp
    ultimately show False using b by simp
  qed
  have k52: "ilog2 ?x \<le> 52"
  proof (rule ccontr)
    assume "\<not> ilog2 ?x \<le> 52"
    then have "(2::rat) powi 53 \<le> 2 powi ilog2 ?x"
      by (intro power_int_increasing) simp_all
    moreover have "?x < of_int (2 ^ 53)" using assms(2) by (simp only: of_int_less_iff)
    ultimately show False using b by simp
  qed
  define j where "j = nat (52 - ilog2 ?x)"
  have e: "float_exponent ?x = - int j"
    unfolding float_exponent_pos [OF x] j_def using k0 k52 by simp
  have p: "(2::rat) powi (- int j) = 1 / 2 ^ j"
    by (simp add: power_int_minus_divide)
  have "?x / 2 powi (- int j) = of_int (n * 2 ^ j)"
    unfolding p by simp
  then have "rne (?x / 2 powi (- int j)) = n * 2 ^ j"
    by (simp only: rne_of_int)
  then show ?thesis
    unfolding fl_pos [OF x] e p by simp
qed

lemma fl_below_7_10: "fl (6305039478318693 / 9007199254740992) < fl (7 / 10)"
  by code_simp

lemma fl_above_13_10: "fl (13 / 10) < fl (5854679515581646 / 4503599627370496)"
  by code_simp

text \<open>On bounding boxes with sides below \<open>2^31\<close> the float test of the aspect ratio
  decides the exact one.\<close>

lemma aspect_ratio_exact:
  assumes w: "0 < w" "w < 2 ^ 31" and h: "0 < h" "h < 2 ^ 31"
  shows "fl (7 / 10) \<le> float_div (py_float w) (py_float h)
           \<and> float_div (py_float w) (py_float h) \<le> fl (13 / 10)
         \<longleftrightarrow> 7 / 10 \<le> (of_int w :: rat) / of_int h \<and> (of_int w :: rat) / of_int h \<le> 13 / 10"
proof -
  let ?r = "(of_int w :: rat) / of_int h"
  have "w < 2 ^ 53" "h < 2 ^ 53" using w(2) h(2) by simp_all
  then have fd: "float_div (py_float w) (py_float h) = fl ?r"
    using w(1) h(1) by (simp add: float_div_def py_float_def fl_int_exact)
  have hpos: "(0::rat) < of_int h" using h(1) by simp
  have r0: "0 \<le> ?r" using w(1) h(1) by simp
  have lo: "fl (7 / 10) \<le> fl ?r \<longleftrightarrow> 7 / 10 \<le> ?r"
  proof
    assume "7 / 10 \<le> ?r"
    then show "fl (7 / 10) \<le> fl ?r" by (intro fl_mono) simp_all
  next
    assume a: "fl (7 / 10) \<le> fl ?r"
    show "7 / 10 \<le> ?r"
    proof (rule ccontr)
      assume "\<not> 7 / 10 \<le> ?r"
      then have "?r < 7 / 10" by simp
      then have "(of_int (10 * w) :: rat) < of_int (7 * h)"
        using hpos by (simp add: pos_divide_less_eq)
      then have "10 * w < 7 * h" by (simp only: of_int_less_iff)
      with h(2) have "21474836480 * w \<le> 15032385535 * h" by simp
      then have "(of_int (21474836480 * w) :: rat) \<le> of_int (15032385535 * h)"
        by (simp only: of_int_le_iff)
      then have "?r \<le> 15032385535 / 21474836480"
        using hpos by (simp add: pos_divide_le_eq)
      also have "\<dots> \<le> 6305039478318693 / 9007199254740992" by simp
      finally have "fl ?r \<le> fl (6305039478318693 / 9007199254740992)"
        using r0 by (intro fl_mono)
      with fl_below_7_10 a show False by simp
    qed
  qed
  have hi: "fl ?r \<le> fl (13 / 10) \<longleftrightarrow> ?r \<le> 13 / 10"
  proof
    assume "?r \<le> 13 / 10"
    then show "fl ?r \<le> fl (13 / 10)" using r0 by (intro fl_mono)
  next
    assume a: "fl ?r \<le> fl (13 / 10)"
    show "?r \<le> 13 / 10"
    proof (rule ccontr)
      assume "\<not> ?r \<le> 13 / 10"
      then have "13 / 10 < ?r" by simp
      then have "(of_int (13 * h) :: rat) < of_int (10 * w)"
        using hpos by (simp add: pos_less_divide_eq)
      then have "13 * h < 10 * w" by (simp only: of_int_less_iff)
      with h(2) have "27917287425 * h \<le> 21474836480 * w" by simp
      then have "(of_int (27917287425 * h) :: rat) \<le> of_int (21474836480 * w)"
        by (simp only: of_int_le_iff)
      then have b: "27917287425 / 21474836480 \<le> ?r"
        using hpos by (simp add: pos_le_divide_eq)
      have "(5854679515581646 / 4503599627370496 :: rat) \<le> 27917287425 / 21474836480"
        by simp
      also note b
      finally have "5854679515581646 / 4503599627370496 \<le> ?r" .
      then have "fl (5854679515581646 / 4503599627370496) \<le> fl ?r"
        by (intro fl_mono) simp_all
      with fl_above_13_10 a show False by simp
    qed
  qed
  show ?thesis unfolding fd using lo hi by simp
qed

text \<open>The contours kept by the loop, in order: those that pass both tests.\<close>

lemma detect_loop_contours:
  "detect_loop cfg cs bs0 = Inr bs \<Longrightarrow>
   map b_contour bs = map b_contour bs0 @
     filter (\<lambda>c. of_int (min_contour_area cfg) < contourArea c
                \<and> contourArea c < of_int (max_contour_area cfg)
                \<and> (case boundingRect c of (x, y, w, h) \<Rightarrow>
                      fl (7 / 10) \<le> float_div (py_float w) (py_float h)
                    \<and> float_div (py_float w) (py_float h) \<le> fl (13 / 10))) cs"
proof (induction cs arbitrary: bs0)
  case Nil
  then show ?case by simp
next
  case (Cons c cs)
  obtain x y w h where r: "boundingRect c = (x, y, w, h)" by (cases "boundingRect c")
  from Cons.prems show ?case
    by (auto simp: r Let_def dest!: Cons.IH split: if_splits)
qed

lemma detect_loop_total:
  "\<forall>c\<in>set cs. snd (snd (snd (boundingRect c))) \<noteq> 0 \<Longrightarrow> \<exists>bs. detect_loop cfg cs bs0 = Inr bs"
proof (induction cs arbitrary: bs0)
  case Nil
  then show ?case by simp
next
  case (Cons c cs)
  obtain x y w h where r: "boundingRect c = (x, y, w, h)" by (cases "boundingRect c")
  from Cons.prems have h: "h \<noteq> 0" and rest: "\<forall>c\<in>set cs. snd (snd (snd (boundingRect c))) \<noteq> 0"
    by (simp_all add: r)
  from Cons.IH [OF rest] h show ?case
    by (simp add: r Let_def)
qed

lemma detect_bubbles_total:
  assumes "\<forall>c\<in>set (findContours cv img). snd (snd (snd (boundingRect c))) \<noteq> 0"
  shows "\<exists>bubbles. detect_bubbles cv cfg img = Inr bubbles"
proof -
  from detect_loop_total [OF assms, of cfg "[]"] obtain bs
    where "detect_loop cfg (findContours cv img) [] = Inr bs" ..
  then show ?thesis by (simp add: detect_bubbles_def)
qed

text \<open>
  C4 (as the code has it). For a binary map whose contours have bounding boxes with
  sides between 1 and \<open>2^31 - 1\<close>, bubble detection succeeds, and a contour becomes a
  bubble exactly when its area lies strictly between \<open>min_area\<close> and \<open>max_area\<close>
  and its aspect ratio width/height lies in \<open>[0.7, 1.3]\<close>, bounds included: the
  bubbles are these contours, one bubble for each.
\<close>

theorem detect_bubbles_filter:
  assumes "\<forall>c\<in>set (findContours cv img).
             case boundingRect c of (x, y, w, h) \<Rightarrow> 0 < w \<and> w < 2 ^ 31 \<and> 0 < h \<and> h < 2 ^ 31"
  shows "\<exists>bubbles. detect_bubbles cv cfg img = Inr bubbles
          \<and> (\<forall>c\<in>set (findContours cv img).
                (\<exists>b\<in>set bubbles. b_contour b = c) \<longleftrightarrow>
                  of_int (min_contour_area cfg) < contourArea c
                \<and> contourArea c < of_int (max_contour_area cfg)
                \<and> (case boundingRect c of (x, y, w, h) \<Rightarrow>
                      7 / 10 \<le> (of_int w :: rat) / of_int h \<and> (of_int w :: rat) / of_int h \<le> 13 / 10))
          \<and> mset (map b_contour bubbles) =
              mset (filter (\<lambda>c. of_int (min_contour_area cfg) < contourArea c
                \<and> contourArea c < of_int (max_contour_area cfg)
                \<and> (case boundingRect c of (x, y, w, h) \<Rightarrow>
                      7 / 10 \<le> (of_int w :: rat) / of_int h \<and> (of_int w :: rat) / of_int h \<le> 13 / 10))
                (findContours cv img))"
proof -
  let ?cs = "findContours cv img"
  let ?acc = "\<lambda>c. of_int (min_contour_area cfg) < contourArea c
                \<and> contourArea c < of_int (max_contour_area cfg)
                \<and> (case boundingRect c of (x, y, w, h) \<Rightarrow>
                      fl (7 / 10) \<le> float_div (py_float w) (py_float h)
                    \<and> float_div (py_float w) (py_float h) \<le> fl (13 / 10))"
  let ?exact = "\<lambda>c. of_int (min_contour_area cfg) < contourArea c
                \<and> contourArea c < of_int (max_contour_area cfg)
                \<and> (case boundingRect c of (x, y, w, h) \<Rightarrow>
                      7 / 10 \<le> (of_int w :: rat) / of_int h \<and> (of_int w :: rat) / of_int h \<le> 13 / 10)"
  have nz: "\<forall>c\<in>set ?cs. snd (snd (snd (boundingRect c))) \<noteq> 0"
  proof
    fix c assume c: "c \<in> set ?cs"
    obtain x y w h where r: "boundingRect c = (x, y, w, h)" by (cases "boundingRect c")
    from assms c have "case boundingRect c of (x, y, w, h) \<Rightarrow>
        0 < w \<and> w < 2 ^ 31 \<and> 0 < h \<and> h < 2 ^ 31" by (rule bspec)
    then have "0 < h" unfolding r by simp
    then show "snd (snd (snd (boundingRect c))) \<noteq> 0" by (simp add: r)
  qed
  from detect_loop_total [OF nz, of cfg "[]"] obtain bs
    where bs: "detect_loop cfg ?cs [] = Inr bs" ..
  then have res: "detect_bubbles cv cfg img = Inr (sort_bubbles bs)"
    by (simp add: detect_bubbles_def)
  from detect_loop_contours [OF bs] have m: "map b_contour bs = filter ?acc ?cs" by simp
  have eqv: "?acc c \<longleftrightarrow> ?exact c" if c: "c \<in> set ?cs" for c
  proof -
    obtain x y w h where r: "boundingRect c = (x, y, w, h)" by (cases "boundingRect c")
    from assms c have "case boundingRect c of (x, y, w, h) \<Rightarrow>
        0 < w \<and> w < 2 ^ 31 \<and> 0 < h \<and> h < 2 ^ 31" by (rule bspec)
    then have wh: "0 < w" "w < 2 ^ 31" "0 < h" "h < 2 ^ 31" unfolding r by simp_all
    show ?thesis
      unfolding r prod.case aspect_ratio_exact [OF wh] ..
  qed
  have flt: "filter ?acc ?cs = filter ?exact ?cs"
    by (rule filter_cong [OF refl]) (rule eqv)
  have ms: "mset (map b_contour (sort_bubbles bs)) = mset (filter ?exact ?cs)"
  proof -
    have "mset (map b_contour (sort_bubbles bs)) = mset (map b_contour bs)"
      by (simp add: sort_bubbles_def)
    also have "\<dots> = mset (filter ?exact ?cs)" unfolding m flt ..
    finally show ?thesis .
  qed
  have iff: "(\<exists>b\<in>set (sort_bubbles bs). b_contour b = c) \<longleftrightarrow> ?exact c"
    if c: "c \<in> set ?cs" for c
  proof -
    have "(\<exists>b\<in>set (sort_bubbles bs). b_contour b = c) \<longleftrightarrow> c \<in> set (map b_contour (sort_bubbles bs))"
      by auto
    also have "\<dots> \<longleftrightarrow> c \<in> set (filter ?exact ?cs)"
      unfolding mset_eq_setD [OF ms] ..
    also have "\<dots> \<longleftrightarrow> ?exact c" using c by simp
    finally show ?thesis .
  qed
  show ?thesis
  proof (intro exI [of _ "sort_bubbles bs"] conjI ballI)
    show "detect_bubbles cv cfg img = Inr (sort_bubbles bs)" by (rule res)
  next
    fix c assume "c \<in> set ?cs"
    then show "(\<exists>b\<in>set (sort_bubbles bs). b_contour b = c) \<longleftrightarrow> ?exact c"
      by (rule iff)
  next
    show "mset (map b_contour (sort_bubbles bs)) = mset (filter ?exact ?cs)" by (rule ms)
  qed
qed

theorem detect_bubbles_filter_witness:
  "findContours
        \<lparr>imread = Map.empty, cvtColor = id, GaussianBlur = id, adaptiveThreshold = id,
         findContours = (\<lambda>_. [\<lparr>contourArea = 21, boundingRect = (3, 4, 7, 10)\<rparr>,
                               \<lparr>contourArea = 400, boundingRect = (30, 4, 10, 10)\<rparr>])\<rparr> [] =
      [\<lparr>contourArea = 21, boundingRect = (3, 4, 7, 10)\<rparr>,
       \<lparr>contourArea = 400, boundingRect = (30, 4, 10, 10)\<rparr>]
   \<and> (0::int) < 7 \<and> (7::int) < 2 ^ 31 \<and> (0::int) < 10 \<and> (10::int) < 2 ^ 31
   \<and> detect_bubbles
        \<lparr>imread = Map.empty, cvtColor = id, GaussianBlur = id, adaptiveThreshold = id,
         findContours = (\<lambda>_. [\<lparr>contourArea = 21, boundingRect = (3, 4, 7, 10)\<rparr>,
                               \<lparr>contourArea = 400, boundingRect = (30, 4, 10, 10)\<rparr>])\<rparr>
        default_config [] =
      Inr [\<lparr>b_contour = \<lparr>contourArea = 21, boundingRect = (3, 4, 7, 10)\<rparr>,
             b_x = 3, b_y = 4, b_w = 7, b_h = 10, b_area = 21, b_center = (6, 9)\<rparr>]
   \<and> mset (map b_contour
        [\<lparr>b_contour = \<lparr>contourArea = 21, boundingRect = (3, 4, 7, 10)\<rparr>,
             b_x = 3, b_y = 4, b_w = 7, b_h = 10, b_area = 21, b_center = (6, 9)\<rparr>]) =
      {#\<lparr>contourArea = 21, boundingRect = (3, 4, 7, 10)\<rparr>#}"
proof -
  let ?cv = "\<lparr>imread = Map.empty, cvtColor = id, GaussianBlur = id, adaptiveThreshold = id,
         findContours = (\<lambda>_. [\<lparr>contourArea = 21, boundingRect = (3, 4, 7, 10)\<rparr>,
                               \<lparr>contourArea = 400, boundingRect = (30, 4, 10, 10)\<rparr>])\<rparr>
       :: binary_image cv2"
  have fc: "findContours ?cv [] =
      [\<lparr>contourArea = 21, boundingRect = (3, 4, 7, 10)\<rparr>,
       \<lparr>contourArea = 400, boundingRect = (30, 4, 10, 10)\<rparr>]"
    by simp
  have n: "(0::int) < 7" "(7::int) < 2 ^ 31" "(0::int) < 10" "(10::int) < 2 ^ 31"
    by simp_all
  have h: "\<forall>c\<in>set (findContours ?cv []).
       case boundingRect c of (x, y, w, h) \<Rightarrow> 0 < w \<and> w < 2 ^ 31 \<and> 0 < h \<and> h < 2 ^ 31"
    by simp
  have a: "float_div (py_float 7) (py_float 10) = fl (7 / 10)"
    by code_simp
  have b: "fl (7 / 10) \<le> fl (13 / 10)" by (intro fl_mono) simp_all
  have v: "detect_bubbles ?cv default_config [] =
      Inr [\<lparr>b_contour = \<lparr>contourArea = 21, boundingRect = (3, 4, 7, 10)\<rparr>,
             b_x = 3, b_y = 4, b_w = 7, b_h = 10, b_area = 21, b_center = (6, 9)\<rparr>]"
    by (simp add: detect_bubbles_def default_config_def sort_bubbles_def a b)
  from detect_bubbles_filter [OF h, of default_config] obtain bubbles where
    d: "detect_bubbles ?cv default_config [] = Inr bubbles"
    and m: "mset (map b_contour bubbles) =
              mset (filter (\<lambda>c. of_int (min_contour_area default_config) < contourArea c
                \<and> contourArea c < of_int (max_contour_area default_config)
                \<and> (case boundingRect c of (x, y, w, h) \<Rightarrow>
                      7 / 10 \<le> (of_int w :: rat) / of_int h \<and> (of_int w :: rat) / of_int h \<le> 13 / 10))
                (findContours ?cv []))"
    by blast
  from m have m': "mset (map b_contour bubbles) = {#\<lparr>contourArea = 21, boundingRect = (3, 4, 7, 10)\<rparr>#}"
    unfolding fc by (simp add: default_config_def)
  from d v have bb: "bubbles =
      [\<lparr>b_contour = \<lparr>contourArea = 21, boundingRect = (3, 4, 7, 10)\<rparr>,
             b_x = 3, b_y = 4, b_w = 7, b_h = 10, b_area = 21, b_center = (6, 9)\<rparr>]"
    by simp
  from m' have e: "mset (map b_contour
        [\<lparr>b_contour = \<lparr>contourArea = 21, boundingRect = (3, 4, 7, 10)\<rparr>,
             b_x = 3, b_y = 4, b_w = 7, b_h = 10, b_area = 21, b_center = (6, 9)\<rparr>]) =
      {#\<lparr>contourArea = 21, boundingRect = (3, 4, 7, 10)\<rparr>#}"
    unfolding bb .
  from fc n v e show ?thesis by (intro conjI)
qed

text \<open>A contour of area exactly \<open>min_area = 20\<close> in a square bounding box lies in the
  inclusive band \<open>[20, 400]\<close> and has aspect ratio 1, yet it is not made a bubble.\<close>

theorem detect_bubbles_inclusive_band_counterexample:
  "of_int (min_contour_area default_config)
      \<le> contourArea \<lparr>contourArea = 20, boundingRect = (0, 0, 10, 10)\<rparr>
   \<and> contourArea \<lparr>contourArea = 20, boundingRect = (0, 0, 10, 10)\<rparr>
      \<le> of_int (max_contour_area default_config)
   \<and> (7 / 10 :: rat) \<le> 10 / 10 \<and> (10 / 10 :: rat) \<le> 13 / 10
   \<and> detect_bubbles
        \<lparr>imread = Map.empty, cvtColor = id, GaussianBlur = id, adaptiveThreshold = id,
         findContours = (\<lambda>_. [\<lparr>contourArea = 20, boundingRect = (0, 0, 10, 10)\<rparr>])\<rparr>
        default_config ([] :: binary_image) = Inr []"
  by (simp add: detect_bubbles_def default_config_def sort_bubbles_def)

section \<open>The extractor and the pipeline as a whole\<close>

text \<open>
  C3. Every row of the grouper is ordered left to right. For a configuration whose
  option letters exist (\<^verbatim>\<open>chr\<close> is defined up to code point 1114111), extraction
  returns marked answers, and for every row that has the configured number of bubbles,
  with letter \<open>chr (65 + k)\<close> (\<open>A\<close>, \<open>B\<close>, \<open>C\<close>, ...) for its \<open>k\<close>-th bubble: when
  the largest fill ratio of the row exceeds the threshold, the marked answers hold for
  that question the letter of the first bubble from the left that reaches the largest
  ratio; otherwise they hold no entry for it.
\<close>

theorem analyze_bubbles_selects_leftmost_maximum:
  "(\<forall>row\<in>set (group_bubbles_by_rows bubbles). sorted (map b_x row))
   \<and> (questions_per_row cfg + 65 \<le> 1114112 \<longrightarrow>
       (\<exists>ma. analyze_bubbles cfg img bubbles = Inr ma
         \<and> (\<forall>i<length (group_bubbles_by_rows bubbles).
              length (group_bubbles_by_rows bubbles ! i) = questions_per_row cfg \<longrightarrow>
                (bubble_threshold cfg
                    < Max (fill_percentage img ` set (group_bubbles_by_rows bubbles ! i))
                 \<longrightarrow> (\<exists>k<length (group_bubbles_by_rows bubbles ! i). \<exists>letter.
                     fill_percentage img (group_bubbles_by_rows bubbles ! i ! k) =
                       Max (fill_percentage img ` set (group_bubbles_by_rows bubbles ! i))
                   \<and> (\<forall>j<k. fill_percentage img (group_bubbles_by_rows bubbles ! i ! j) <
                         Max (fill_percentage img ` set (group_bubbles_by_rows bubbles ! i)))
                   \<and> py_chr (65 + k) = Inr letter
                   \<and> map_of ma (py_str (i + 1)) = Some letter))
              \<and> (\<not> bubble_threshold cfg
                    < Max (fill_percentage img ` set (group_bubbles_by_rows bubbles ! i))
                 \<longrightarrow> map_of ma (py_str (i + 1)) = None))))"
proof (intro conjI impI ballI)
  fix row assume "row \<in> set (group_bubbles_by_rows bubbles)"
  then show "sorted (map b_x row)"
    unfolding group_bubbles_by_rows_sweep by (rule sweep_rows_sorted)
next
  assume chr: "questions_per_row cfg + 65 \<le> 1114112"
  let ?rows = "group_bubbles_by_rows bubbles"
  from analyze_bubbles_lookup [OF chr, of img bubbles] obtain ma where
    ma: "analyze_bubbles cfg img bubbles = Inr ma"
    and lk: "\<forall>i<length ?rows. map_of ma (py_str (i + 1)) =
              (case analyze_row cfg img (?rows ! i) of Inr (Some l) \<Rightarrow> Some l | _ \<Rightarrow> None)"
    by blast
  have sel: "(bubble_threshold cfg < Max (fill_percentage img ` set (?rows ! i))
                 \<longrightarrow> (\<exists>k<length (?rows ! i). \<exists>letter.
                     fill_percentage img (?rows ! i ! k) = Max (fill_percentage img ` set (?rows ! i))
                   \<and> (\<forall>j<k. fill_percentage img (?rows ! i ! j) <
                         Max (fill_percentage img ` set (?rows ! i)))
                   \<and> py_chr (65 + k) = Inr letter
                   \<and> map_of ma (py_str (i + 1)) = Some letter))
              \<and> (\<not> bubble_threshold cfg < Max (fill_percentage img ` set (?rows ! i))
                 \<longrightarrow> map_of ma (py_str (i + 1)) = None)"
    if i: "i < length ?rows" and len: "length (?rows ! i) = questions_per_row cfg" for i
  proof -
    let ?row = "?rows ! i"
    let ?m = "Max (fill_percentage img ` set ?row)"
    have mem: "?row \<in> set ?rows" using i by simp
    with sweep_rows_nonempty [of bubbles] have ne: "?row \<noteq> []"
      unfolding group_bubbles_by_rows_sweep by metis
    from analyze_row_valid [OF len ne chr, of img] obtain k where
      k: "k < length ?row" "fill_percentage img (?row ! k) = ?m"
         "\<forall>j<k. fill_percentage img (?row ! j) < ?m"
         "analyze_row cfg img ?row =
            Inr (if bubble_threshold cfg < ?m then Some (utf8 (65 + k)) else None)"
      by blast
    have c: "py_chr (65 + k) = Inr (utf8 (65 + k))"
      using k(1) chr len by (simp add: py_chr_def)
    from lk i have e: "map_of ma (py_str (i + 1)) =
        (if bubble_threshold cfg < ?m then Some (utf8 (65 + k)) else None)"
      by (simp add: k(4))
    have hit: "bubble_threshold cfg < ?m \<longrightarrow>
        (\<exists>k<length ?row. \<exists>letter. fill_percentage img (?row ! k) = ?m
           \<and> (\<forall>j<k. fill_percentage img (?row ! j) < ?m)
           \<and> py_chr (65 + k) = Inr letter \<and> map_of ma (py_str (i + 1)) = Some letter)"
      using k(1,2,3) c e by auto
    have miss: "\<not> bubble_threshold cfg < ?m \<longrightarrow> map_of ma (py_str (i + 1)) = None"
      using e by simp
    from hit miss show ?thesis by (rule conjI)
  qed
  show "\<exists>ma. analyze_bubbles cfg img bubbles = Inr ma
         \<and> (\<forall>i<length ?rows. length (?rows ! i) = questions_per_row cfg \<longrightarrow>
                (bubble_threshold cfg < Max (fill_percentage img ` set (?rows ! i))
                 \<longrightarrow> (\<exists>k<length (?rows ! i). \<exists>letter.
                     fill_percentage img (?rows ! i ! k) = Max (fill_percentage img ` set (?rows ! i))
                   \<and> (\<forall>j<k. fill_percentage img (?rows ! i ! j) <
                         Max (fill_percentage img ` set (?rows ! i)))
                   \<and> py_chr (65 + k) = Inr letter
                   \<and> map_of ma (py_str (i + 1)) = Some letter))
              \<and> (\<not> bubble_threshold cfg < Max (fill_percentage img ` set (?rows ! i))
                 \<longrightarrow> map_of ma (py_str (i + 1)) = None))"
  proof (intro exI [of _ ma] conjI allI impI)
    show "analyze_bubbles cfg img bubbles = Inr ma" by (rule ma)
  next
    fix i assume "i < length ?rows" and "length (?rows ! i) = questions_per_row cfg"
      and "bubble_threshold cfg < Max (fill_percentage img ` set (?rows ! i))"
    with sel [of i] show "\<exists>k<length (?rows ! i). \<exists>letter.
                     fill_percentage img (?rows ! i ! k) = Max (fill_percentage img ` set (?rows ! i))
                   \<and> (\<forall>j<k. fill_percentage img (?rows ! i ! j) <
                         Max (fill_percentage img ` set (?rows ! i)))
                   \<and> py_chr (65 + k) = Inr letter
                   \<and> map_of ma (py_str (i + 1)) = Some letter"
      by blast
  next
    fix i assume "i < length ?rows" and "length (?rows ! i) = questions_per_row cfg"
      and "\<not> bubble_threshold cfg < Max (fill_percentage img ` set (?rows ! i))"
    with sel [of i] show "map_of ma (py_str (i + 1)) = None"
      by blast
  qed
qed

theorem analyze_bubbles_selects_leftmost_maximum_witness:
  "questions_per_row default_config + 65 \<le> 1114112
   \<and> 0 < length (group_bubbles_by_rows
        (map (\<lambda>x. \<lparr>b_contour = \<lparr>contourArea = 30, boundingRect = (x, 0, 2, 2)\<rparr>,
                    b_x = x, b_y = 0, b_w = 2, b_h = 2, b_area = 30, b_center = (x + 1, 1)\<rparr>)
          [0, 2, 4, 6, 8]))
   \<and> length (group_bubbles_by_rows
        (map (\<lambda>x. \<lparr>b_contour = \<lparr>contourArea = 30, boundingRect = (x, 0, 2, 2)\<rparr>,
                    b_x = x, b_y = 0, b_w = 2, b_h = 2, b_area = 30, b_center = (x + 1, 1)\<rparr>)
          [0, 2, 4, 6, 8]) ! 0) = questions_per_row default_config
   \<and> sorted (map b_x (group_bubbles_by_rows
        (map (\<lambda>x. \<lparr>b_contour = \<lparr>contourArea = 30, boundingRect = (x, 0, 2, 2)\<rparr>,
                    b_x = x, b_y = 0, b_w = 2, b_h = 2, b_area = 30, b_center = (x + 1, 1)\<rparr>)
          [0, 2, 4, 6, 8]) ! 0))
   \<and> map (fill_percentage (replicate 2 [0, 0, 255, 255, 0, 0, 255, 255, 0, 0]))
        (map (\<lambda>x. \<lparr>b_contour = \<lparr>contourArea = 30, boundingRect = (x, 0, 2, 2)\<rparr>,
                    b_x = x, b_y = 0, b_w = 2, b_h = 2, b_area = 30, b_center = (x + 1, 1)\<rparr>)
          [0, 2, 4, 6, 8]) = [0, 1, 0, 1, 0]
   \<and> analyze_bubbles default_config (replicate 2 [0, 0, 255, 255, 0, 0, 255, 255, 0, 0])
        (map (\<lambda>x. \<lparr>b_contour = \<lparr>contourArea = 30, boundingRect = (x, 0, 2, 2)\<rparr>,
                    b_x = x, b_y = 0, b_w = 2, b_h = 2, b_area = 30, b_center = (x + 1, 1)\<rparr>)
          [0, 2, 4, 6, 8]) = Inr [(''1'', ''B'')]
   \<and> (\<exists>k<5. py_chr (65 + k) = Inr ''B'')"
proof -
  let ?bs = "map (\<lambda>x. \<lparr>b_contour = \<lparr>contourArea = 30, boundingRect = (x, 0, 2, 2)\<rparr>,
                    b_x = x, b_y = 0, b_w = 2, b_h = 2, b_area = 30, b_center = (x + 1, 1)\<rparr>)
          [0, 2, 4, 6, 8]"
  let ?img = "replicate 2 [0, 0, 255, 255, 0, 0, 255, 255, 0, 0] :: binary_image"
  have q: "questions_per_row default_config = 5"
    by (simp add: default_config_def)
  have h1: "questions_per_row default_config + 65 \<le> 1114112"
    unfolding q by simp
  have g: "group_bubbles_by_rows ?bs = [?bs]"
    by (simp add: group_bubbles_by_rows_def)
  have h2: "0 < length (group_bubbles_by_rows ?bs)"
    unfolding g by simp
  have h3: "length (group_bubbles_by_rows ?bs ! 0) = questions_per_row default_config"
    unfolding g q by simp
  have f: "map (fill_percentage ?img) ?bs = [0, 1, 0, 1, 0]"
    by code_simp
  have thr: "bubble_threshold default_config < 1"
    by code_simp
  have r: "analyze_row default_config ?img ?bs = Inr (Some ''B'')"
    unfolding analyze_row_def f
    by (simp add: q thr py_max_def py_chr_def utf8_def char_of_def bit_iff_odd)
  have a: "analyze_bubbles default_config ?img ?bs = Inr [(''1'', ''B'')]"
    by (simp only: analyze_bubbles_def g analyze_loop.simps r sum.case option.case)
       (simp add: py_str.simps char_of_def bit_iff_odd)
  have "fill_percentage ?img ` set (group_bubbles_by_rows ?bs ! 0) =
          set (map (fill_percentage ?img) ?bs)"
    unfolding g nth_Cons_0 set_map ..
  then have mx: "Max (fill_percentage ?img ` set (group_bubbles_by_rows ?bs ! 0)) = 1"
    unfolding f by simp
  have s1: "py_str (0 + 1) = ''1''"
    by (simp add: py_str.simps char_of_def bit_iff_odd)
  note t = analyze_bubbles_selects_leftmost_maximum [of ?bs default_config ?img]
  from t have "\<forall>row\<in>set (group_bubbles_by_rows ?bs). sorted (map b_x row)"
    by (rule conjunct1)
  moreover have "group_bubbles_by_rows ?bs ! 0 \<in> set (group_bubbles_by_rows ?bs)"
    using h2 by (rule nth_mem)
  ultimately have s: "sorted (map b_x (group_bubbles_by_rows ?bs ! 0))"
    by (rule bspec)
  from t h1 obtain ma where ma: "analyze_bubbles default_config ?img ?bs = Inr ma"
    and sel: "\<forall>i<length (group_bubbles_by_rows ?bs).
              length (group_bubbles_by_rows ?bs ! i) = questions_per_row default_config \<longrightarrow>
                (bubble_threshold default_config
                    < Max (fill_percentage ?img ` set (group_bubbles_by_rows ?bs ! i))
                 \<longrightarrow> (\<exists>k<length (group_bubbles_by_rows ?bs ! i). \<exists>letter.
                     fill_percentage ?img (group_bubbles_by_rows ?bs ! i ! k) =
                       Max (fill_percentage ?img ` set (group_bubbles_by_rows ?bs ! i))
                   \<and> (\<forall>j<k. fill_percentage ?img (group_bubbles_by_rows ?bs ! i ! j) <
                         Max (fill_percentage ?img ` set (group_bubbles_by_rows ?bs ! i)))
                   \<and> py_chr (65 + k) = Inr letter
                   \<and> map_of ma (py_str (i + 1)) = Some letter))
              \<and> (\<not> bubble_threshold default_config
                    < Max (fill_percentage ?img ` set (group_bubbles_by_rows ?bs ! i))
                 \<longrightarrow> map_of ma (py_str (i + 1)) = None)"
    by blast
  from thr have "bubble_threshold default_config
      < Max (fill_percentage ?img ` set (group_bubbles_by_rows ?bs ! 0))"
    unfolding mx .
  with sel h2 h3 obtain k letter where k: "k < length (group_bubbles_by_rows ?bs ! 0)"
    and c: "py_chr (65 + k) = Inr letter"
    and l: "map_of ma (py_str (0 + 1)) = Some letter"
    by blast
  from ma a have "ma = [(''1'', ''B'')]" by simp
  with l have "letter = ''B''" unfolding s1 by simp
  with c have c': "py_chr (65 + k) = Inr ''B''" by simp
  from k have "k < 5" unfolding h3 q .
  with c' have e: "\<exists>k<5. py_chr (65 + k) = Inr ''B''" by blast
  from h1 h2 h3 s f a e show ?thesis by (intro conjI)
qed

text \<open>
  C6. A row whose bubble count differs from the configured options per question is
  skipped without raising, whatever the configuration. For a configuration whose option
  letters exist, extraction returns marked answers, whatever the rows: such a row
  leaves its question (the 1-based position of the row) without an entry, and the
  evaluator gives that question \<open>not_attempted\<close> when the key has it; every row of the
  configured length, before or after, is analysed as usual.
\<close>

theorem degenerate_rows_absorbed:
  "(\<forall>row. length row \<noteq> questions_per_row cfg \<longrightarrow> analyze_row cfg img row = Inr None)
   \<and> (questions_per_row cfg + 65 \<le> 1114112 \<longrightarrow>
       (\<exists>ma. analyze_bubbles cfg img bubbles = Inr ma
         \<and> (\<forall>i<length (group_bubbles_by_rows bubbles).
              length (group_bubbles_by_rows bubbles ! i) \<noteq> questions_per_row cfg \<longrightarrow>
                map_of ma (py_str (i + 1)) = None
              \<and> (\<forall>answer_key c. wf_dict answer_key \<and> (py_str (i + 1), c) \<in> set answer_key \<longrightarrow>
                    map_of (result (evaluate_answers cfg ma answer_key)) (py_str (i + 1)) =
                      Some ''not_attempted''))
         \<and> (\<forall>i<length (group_bubbles_by_rows bubbles).
              length (group_bubbles_by_rows bubbles ! i) = questions_per_row cfg \<longrightarrow>
                map_of ma (py_str (i + 1)) =
                  (case analyze_row cfg img (group_bubbles_by_rows bubbles ! i) of
                     Inr (Some l) \<Rightarrow> Some l | _ \<Rightarrow> None))))"
proof (intro conjI allI impI)
  fix row :: "bubble list"
  assume "length row \<noteq> questions_per_row cfg"
  then show "analyze_row cfg img row = Inr None" by (rule analyze_row_degenerate)
next
  assume chr: "questions_per_row cfg + 65 \<le> 1114112"
  let ?rows = "group_bubbles_by_rows bubbles"
  from analyze_bubbles_lookup [OF chr, of img bubbles] obtain ma where
    ma: "analyze_bubbles cfg img bubbles = Inr ma"
    and lk: "\<forall>i<length ?rows. map_of ma (py_str (i + 1)) =
              (case analyze_row cfg img (?rows ! i) of Inr (Some l) \<Rightarrow> Some l | _ \<Rightarrow> None)"
    by blast
  have deg: "map_of ma (py_str (i + 1)) = None
          \<and> (\<forall>answer_key c. wf_dict answer_key \<and> (py_str (i + 1), c) \<in> set answer_key \<longrightarrow>
                map_of (result (evaluate_answers cfg ma answer_key)) (py_str (i + 1)) =
                  Some ''not_attempted'')"
    if i: "i < length ?rows" and d: "length (?rows ! i) \<noteq> questions_per_row cfg" for i
  proof -
    from lk i have none: "map_of ma (py_str (i + 1)) = None"
      by (simp add: analyze_row_degenerate [OF d])
    then have get: "dict_get ma (py_str (i + 1)) '''' = ''''"
      by (simp add: dict_get_def)
    have "map_of (result (evaluate_answers cfg ma answer_key)) (py_str (i + 1)) =
            Some ''not_attempted''"
      if wf: "wf_dict answer_key" and mem: "(py_str (i + 1), c) \<in> set answer_key"
      for answer_key c
    proof -
      from wf have dk: "distinct (map fst answer_key)" by (simp add: wf_dict_def)
      from map_of_mapped [OF dk mem, of "\<lambda>q a. status_of (dict_get ma q '''') a"]
      show ?thesis
        unfolding result_details_eq [OF wf] get by (simp add: status_of_def)
    qed
    with none show ?thesis by blast
  qed
  from ma deg lk show "\<exists>ma. analyze_bubbles cfg img bubbles = Inr ma
         \<and> (\<forall>i<length ?rows. length (?rows ! i) \<noteq> questions_per_row cfg \<longrightarrow>
                map_of ma (py_str (i + 1)) = None
              \<and> (\<forall>answer_key c. wf_dict answer_key \<and> (py_str (i + 1), c) \<in> set answer_key \<longrightarrow>
                    map_of (result (evaluate_answers cfg ma answer_key)) (py_str (i + 1)) =
                      Some ''not_attempted''))
         \<and> (\<forall>i<length ?rows. length (?rows ! i) = questions_per_row cfg \<longrightarrow>
                map_of ma (py_str (i + 1)) =
                  (case analyze_row cfg img (?rows ! i) of
                     Inr (Some l) \<Rightarrow> Some l | _ \<Rightarrow> None))"
    by blast
qed

theorem degenerate_rows_absorbed_witness:
  "questions_per_row default_config + 65 \<le> 1114112
   \<and> map length (group_bubbles_by_rows
        (map (\<lambda>(x, y). \<lparr>b_contour = \<lparr>contourArea = 30, boundingRect = (x, y, 2, 2)\<rparr>,
                    b_x = x, b_y = y, b_w = 2, b_h = 2, b_area = 30, b_center = (x + 1, y + 1)\<rparr>)
          [(0, 0), (2, 0), (4, 0), (6, 0), (0, 30), (2, 30), (4, 30), (6, 30), (8, 30)])) = [4, 5]
   \<and> analyze_bubbles default_config (replicate 32 [0, 0, 255, 255, 0, 0, 255, 255, 0, 0])
        (map (\<lambda>(x, y). \<lparr>b_contour = \<lparr>contourArea = 30, boundingRect = (x, y, 2, 2)\<rparr>,
                    b_x = x, b_y = y, b_w = 2, b_h = 2, b_area = 30, b_center = (x + 1, y + 1)\<rparr>)
          [(0, 0), (2, 0), (4, 0), (6, 0), (0, 30), (2, 30), (4, 30), (6, 30), (8, 30)])
         = Inr [(''2'', ''B'')]
   \<and> map_of [(''2'', ''B'')] ''1'' = (None :: string option)
   \<and> wf_dict [(''1'', ''C''), (''2'', ''B'')]
   \<and> map_of (result (evaluate_answers default_config [(''2'', ''B'')]
                [(''1'', ''C''), (''2'', ''B'')])) ''1''
           = Some ''not_attempted''"
proof -
  let ?bs = "map (\<lambda>(x, y). \<lparr>b_contour = \<lparr>contourArea = 30, boundingRect = (x, y, 2, 2)\<rparr>,
                    b_x = x, b_y = y, b_w = 2, b_h = 2, b_area = 30, b_center = (x + 1, y + 1)\<rparr>)
          [(0, 0), (2, 0), (4, 0), (6, 0), (0, 30), (2, 30), (4, 30), (6, 30), (8, 30)]"
  let ?r1 = "map (\<lambda>x. \<lparr>b_contour = \<lparr>contourArea = 30, boundingRect = (x, 0, 2, 2)\<rparr>,
                    b_x = x, b_y = 0, b_w = 2, b_h = 2, b_area = 30, b_center = (x + 1, 1)\<rparr>)
          [0, 2, 4, 6]"
  let ?r2 = "map (\<lambda>x. \<lparr>b_contour = \<lparr>contourArea = 30, boundingRect = (x, 30, 2, 2)\<rparr>,
                    b_x = x, b_y = 30, b_w = 2, b_h = 2, b_area = 30, b_center = (x + 1, 31)\<rparr>)
          [0, 2, 4, 6, 8]"
  let ?img = "replicate 32 [0, 0, 255, 255, 0, 0, 255, 255, 0, 0] :: binary_image"
  let ?key = "[(''1'', ''C''), (''2'', ''B'')]"
  have q: "questions_per_row default_config = 5"
    by (simp add: default_config_def)
  have h: "questions_per_row default_config + 65 \<le> 1114112"
    unfolding q by simp
  have g: "group_bubbles_by_rows ?bs = [?r1, ?r2]"
    by (simp add: group_bubbles_by_rows_def)
  have f: "map (fill_percentage ?img) ?r2 = [0, 1, 0, 1, 0]"
    by code_simp
  have thr: "bubble_threshold default_config < 1"
    by code_simp
  have r1: "analyze_row default_config ?img ?r1 = Inr None"
    by (rule analyze_row_degenerate) (simp add: q)
  have r2: "analyze_row default_config ?img ?r2 = Inr (Some ''B'')"
    unfolding analyze_row_def f
    by (simp add: q thr py_max_def py_chr_def utf8_def char_of_def bit_iff_odd)
  have a: "analyze_bubbles default_config ?img ?bs = Inr [(''2'', ''B'')]"
    by (simp only: analyze_bubbles_def g analyze_loop.simps r1 r2 sum.case option.case)
       (simp add: py_str.simps char_of_def bit_iff_odd)
  have l: "map length (group_bubbles_by_rows ?bs) = [4, 5]"
    unfolding g by simp
  have s1: "py_str (0 + 1) = ''1''"
    by (simp add: py_str.simps char_of_def bit_iff_odd)
  have i0: "0 < length (group_bubbles_by_rows ?bs)"
    unfolding g by simp
  have d0: "length (group_bubbles_by_rows ?bs ! 0) \<noteq> questions_per_row default_config"
    unfolding g q by simp
  have wf: "wf_dict ?key \<and> (py_str (0 + 1), ''C'') \<in> set ?key"
    unfolding s1 by (simp add: wf_dict_def)
  from degenerate_rows_absorbed [of default_config ?img ?bs] h
  obtain ma where ma: "analyze_bubbles default_config ?img ?bs = Inr ma"
    and deg: "\<forall>i<length (group_bubbles_by_rows ?bs).
          length (group_bubbles_by_rows ?bs ! i) \<noteq> questions_per_row default_config \<longrightarrow>
            map_of ma (py_str (i + 1)) = None
          \<and> (\<forall>answer_key c. wf_dict answer_key \<and> (py_str (i + 1), c) \<in> set answer_key \<longrightarrow>
                map_of (result (evaluate_answers default_config ma answer_key)) (py_str (i + 1)) =
                  Some ''not_attempted'')"
    by blast
  from deg i0 d0 have n: "map_of ma (py_str (0 + 1)) = None"
    and na: "\<forall>answer_key c. wf_dict answer_key \<and> (py_str (0 + 1), c) \<in> set answer_key \<longrightarrow>
                map_of (result (evaluate_answers default_config ma answer_key)) (py_str (0 + 1)) =
                  Some ''not_attempted''"
    by blast+
  from na wf have e: "map_of (result (evaluate_answers default_config ma ?key)) (py_str (0 + 1)) =
      Some ''not_attempted''" by blast
  from ma a have m: "ma = [(''2'', ''B'')]" by simp
  from n have n': "map_of [(''2'', ''B'')] ''1'' = (None :: string option)"
    unfolding m s1 .
  from e have e': "map_of (result (evaluate_answers default_config [(''2'', ''B'')] ?key)) ''1'' =
      Some ''not_attempted''"
    unfolding m s1 .
  from wf have wf': "wf_dict ?key" by (rule conjunct1)
  from h l a n' wf' e' show ?thesis by (intro conjI)
qed

text \<open>
  C7. When the image cannot be decoded, \<open>process_omr_sheet\<close> fails with the image-load
  error, whatever the later stages would do, and returns no result. When the image is
  decoded, the option letters of the configuration exist and the bounding boxes of the
  contours have a non-zero height (as OpenCV's have), it returns a result: no other
  condition makes it fail.
\<close>

theorem image_load_failure_is_the_only_error:
  "(imread cv image_path = None \<longrightarrow>
      process_omr_sheet cv cfg image_path answer_key = Inl (ImageLoadError image_path))
   \<and> (imread cv image_path \<noteq> None
        \<and> questions_per_row cfg + 65 \<le> 1114112
        \<and> (\<forall>im. \<forall>c\<in>set (findContours cv im). snd (snd (snd (boundingRect c))) \<noteq> 0) \<longrightarrow>
      (\<exists>r. process_omr_sheet cv cfg image_path answer_key = Inr r))"
proof (intro conjI impI)
  assume "imread cv image_path = None"
  then show "process_omr_sheet cv cfg image_path answer_key = Inl (ImageLoadError image_path)"
    by (simp add: process_omr_sheet_def)
next
  assume a: "imread cv image_path \<noteq> None
        \<and> questions_per_row cfg + 65 \<le> 1114112
        \<and> (\<forall>im. \<forall>c\<in>set (findContours cv im). snd (snd (snd (boundingRect c))) \<noteq> 0)"
  then obtain im where im: "imread cv image_path = Some im" by auto
  from a have chr: "questions_per_row cfg + 65 \<le> 1114112" by simp
  from a have "\<forall>c\<in>set (findContours cv (preprocess_image cv im)).
      snd (snd (snd (boundingRect c))) \<noteq> 0" by blast
  from detect_bubbles_total [OF this, of cfg] obtain bubbles
    where b: "detect_bubbles cv cfg (preprocess_image cv im) = Inr bubbles" ..
  from analyze_bubbles_lookup [OF chr, of "preprocess_image cv im" bubbles] obtain ma
    where m: "analyze_bubbles cfg (preprocess_image cv im) bubbles = Inr ma" by blast
  show "\<exists>r. process_omr_sheet cv cfg image_path answer_key = Inr r"
    by (simp add: process_omr_sheet_def im b m Let_def)
qed

theorem image_load_failure_is_the_only_error_witness:
  "imread \<lparr>imread = [''sheet.png'' \<mapsto> []], cvtColor = id, GaussianBlur = id,
           adaptiveThreshold = id, findContours = (\<lambda>_. [])\<rparr> ''missing.png'' = None
   \<and> process_omr_sheet
        \<lparr>imread = [''sheet.png'' \<mapsto> []], cvtColor = id, GaussianBlur = id,
         adaptiveThreshold = id, findContours = (\<lambda>_. [])\<rparr>
        default_config ''missing.png'' [(''1'', ''A'')] = Inl (ImageLoadError ''missing.png'')
   \<and> imread \<lparr>imread = [''sheet.png'' \<mapsto> []], cvtColor = id, GaussianBlur = id,
           adaptiveThreshold = id, findContours = (\<lambda>_. [])\<rparr> ''sheet.png'' = Some []
   \<and> questions_per_row default_config + 65 \<le> 1114112
   \<and> (\<exists>r. process_omr_sheet
        \<lparr>imread = [''sheet.png'' \<mapsto> []], cvtColor = id, GaussianBlur = id,
         adaptiveThreshold = id, findContours = (\<lambda>_. [])\<rparr>
        default_config ''sheet.png'' [(''1'', ''A'')] = Inr r)"
proof -
  let ?cv = "\<lparr>imread = [''sheet.png'' \<mapsto> []], cvtColor = id, GaussianBlur = id,
         adaptiveThreshold = id, findContours = (\<lambda>_. [])\<rparr> :: binary_image cv2"
  have n: "imread ?cv ''missing.png'' = None" by simp
  have s': "imread ?cv ''sheet.png'' = Some []" by simp
  then have s: "imread ?cv ''sheet.png'' \<noteq> None" by simp
  have c: "questions_per_row default_config + 65 \<le> 1114112"
    by (simp add: default_config_def)
  have z: "\<forall>im. \<forall>c\<in>set (findContours ?cv im). snd (snd (snd (boundingRect c))) \<noteq> 0"
    by simp
  note t1 = image_load_failure_is_the_only_error
    [of ?cv "''missing.png''" default_config "[(''1'', ''A'')]"]
  note t2 = image_load_failure_is_the_only_error
    [of ?cv "''sheet.png''" default_config "[(''1'', ''A'')]"]
  from t1 n have e1: "process_omr_sheet ?cv default_config ''missing.png'' [(''1'', ''A'')] =
      Inl (ImageLoadError ''missing.png'')" by blast
  from t2 s c z have e2: "\<exists>r. process_omr_sheet ?cv default_config ''sheet.png'' [(''1'', ''A'')] = Inr r"
    by blast
  from n e1 s' c e2 show ?thesis by (intro conjI)
qed

end
